theory Spec2Isabelle
  imports Main "HOL-Library.Word" "HOL-Library.Sublist" "HOL-Library.Multiset"
begin

section \<open>Huffman coding over a node arena (Huffman.h, Huffman.cpp)\<close>

text \<open>
  The development embeds the two source files function by function.  Bytes are
  \<open>uint8_t\<close>, modelled as \<open>8 word\<close>.  Child indices are \<open>int16_t\<close>; they are modelled
  as \<open>int\<close>, and every \<open>static_cast<int16_t>\<close> of the source is the function
  \<open>to_int16\<close>, which wraps as the cast does.  Occurrence counts are \<open>size_t\<close>; a span
  cannot hold more than \<open>SIZE_MAX\<close> bytes, so no count and no sum of counts of one input
  can wrap, and they are modelled as \<open>nat\<close>.
\<close>

subsection \<open>Data model\<close>

type_synonym uint8 = "8 word"

text \<open>\<open>static_cast<std::int16_t>\<close>: reduction modulo \<open>2^16\<close> into \<open>-32768 .. 32767\<close>.\<close>

definition to_int16 :: "int \<Rightarrow> int" where
  "to_int16 x = (x + 32768) mod 65536 - 32768"

text \<open>\<open>struct Node\<close>; the field \<open>value\<close> is named \<open>nvalue\<close> here.\<close>

record Node =
  left :: int
  right :: int
  nvalue :: uint8

definition isLeaf :: "Node \<Rightarrow> bool" where
  "isLeaf n = (left n = - 1 \<and> right n = - 1)"

text \<open>\<open>struct NodeWithCount\<close>: the node and its merge priority.\<close>

record NodeWithCount =
  node :: Node
  count :: nat

text \<open>
  \<open>struct Encoded\<close>: the bit sequence \<open>binary_data_\<close> and the arena \<open>nodes_\<close>.
  \<open>Encoded() = default\<close> leaves both vectors empty.
\<close>

record Encoded =
  binary_data :: "bool list"
  nodes :: "Node list"

definition Encoded_default :: Encoded where
  "Encoded_default = \<lparr>binary_data = [], nodes = []\<rparr>"

text \<open>
  Reading a vector outside its bounds, and \<open>back()\<close> of an empty vector, are undefined
  behaviour in the source; the model returns them as errors.
\<close>

datatype error = BackOfEmptyArena | IndexOutOfBounds int

text \<open>\<open>root()\<close> is \<open>nodes_.back()\<close>; \<open>root_index()\<close> is
  \<open>static_cast<int16_t>(nodes_.size() - 1)\<close>, where the subtraction is unsigned and the
  cast keeps its low 16 bits.\<close>

definition root :: "Encoded \<Rightarrow> error + Node" where
  "root e = (if nodes e = [] then Inl BackOfEmptyArena else Inr (last (nodes e)))"

definition root_index :: "Encoded \<Rightarrow> int" where
  "root_index e = to_int16 (int (length (nodes e)) - 1)"

subsection \<open>Frequency table and leaves\<close>

text \<open>\<open>count_bytes\<close>: an array of 256 counters, incremented at each byte.\<close>

definition count_bytes :: "uint8 list \<Rightarrow> nat list" where
  "count_bytes bytes =
     foldl (\<lambda>counts ch. counts[unat ch := Suc (counts ! unat ch)]) (replicate 256 0) bytes"

text \<open>\<open>make_leaf_nodes\<close>: one leaf per index with a non-zero count, in index order.\<close>

definition make_leaf_nodes :: "nat list \<Rightarrow> NodeWithCount list" where
  "make_leaf_nodes counts =
     foldl (\<lambda>acc i.
        if counts ! i \<noteq> 0
        then acc @ [\<lparr>node = \<lparr>left = - 1, right = - 1, nvalue = of_nat i\<rparr>, count = counts ! i\<rparr>]
        else acc)
       [] [0..<length counts]"

subsection \<open>The priority queue\<close>

text \<open>
  Modelled from the spec: \<open>std::priority_queue\<close> is the standard library's, not this
  repository's.  The queue is modelled by the list of the indices it holds.  With the
  comparator \<open>cmp\<close> of \<open>init_tree\<close>, \<open>top()\<close> is an element that no other element beats,
  that is one of least count; which of several such elements the heap surfaces is its
  internal tie rule, taken here as the parameter \<open>tie\<close>: given the candidates of least
  count, it names the position of the one at the top (read modulo their number, so that
  every \<open>tie\<close> is a tie rule).  \<open>pop()\<close> removes the element that \<open>top()\<close> returns.
  An index that is popped is never pushed again, so two calls of \<open>top()\<close> in one run see
  different candidates, and the run of any heap on an input is the run of some \<open>tie\<close>;
  the properties below hold for every \<open>tie\<close>.
  \<open>init_tree\<close> calls \<open>top()\<close> and \<open>pop()\<close> on a queue that is not empty only, and the
  queue holds indices of \<open>nodes_with_size\<close> only (\<open>merge_inv\<close> below), so that the
  comparator reads no count out of bounds.
\<close>

type_synonym tie_rule = "int list \<Rightarrow> nat"

definition cmp :: "NodeWithCount list \<Rightarrow> int \<Rightarrow> int \<Rightarrow> bool" where
  "cmp nodes_with_size lhs rhs =
     (count (nodes_with_size ! nat lhs) > count (nodes_with_size ! nat rhs))"

definition pq_candidates :: "NodeWithCount list \<Rightarrow> int list \<Rightarrow> int list" where
  "pq_candidates nodes_with_size queue =
     filter (\<lambda>i. list_all (\<lambda>j. \<not> cmp nodes_with_size i j) queue) queue"

definition pq_top :: "tie_rule \<Rightarrow> NodeWithCount list \<Rightarrow> int list \<Rightarrow> int" where
  "pq_top tie nodes_with_size queue =
     (let cands = pq_candidates nodes_with_size queue
      in cands ! (tie cands mod length cands))"

definition pq_pop :: "tie_rule \<Rightarrow> NodeWithCount list \<Rightarrow> int list \<Rightarrow> int list" where
  "pq_pop tie nodes_with_size queue = remove1 (pq_top tie nodes_with_size queue) queue"

definition pq_push :: "int list \<Rightarrow> int \<Rightarrow> int list" where
  "pq_push queue i = queue @ [i]"

subsection \<open>Tree construction\<close>

text \<open>
  The \<open>while (queue.size() > 1)\<close> loop of \<open>init_tree\<close>, on the state it changes: the
  vector \<open>nodes_with_size\<close> and the queue.
\<close>

function merge_loop ::
  "tie_rule \<Rightarrow> NodeWithCount list \<Rightarrow> int list \<Rightarrow> NodeWithCount list \<times> int list" where
  "merge_loop tie nodes_with_size queue =
     (if length queue > 1 then
        let back1 = pq_top tie nodes_with_size queue;
            queue1 = pq_pop tie nodes_with_size queue;
            back2 = pq_top tie nodes_with_size queue1;
            queue2 = pq_pop tie nodes_with_size queue1;
            nodes_with_size' = nodes_with_size @
              [\<lparr>node = \<lparr>left = back1, right = back2, nvalue = 0\<rparr>,
                count = count (nodes_with_size ! nat back1) + count (nodes_with_size ! nat back2)\<rparr>];
            queue3 = pq_push queue2 (to_int16 (int (length nodes_with_size') - 1))
        in merge_loop tie nodes_with_size' queue3
      else (nodes_with_size, queue))"
  by pat_completeness auto
termination
proof (relation "measure (\<lambda>(tie, nodes_with_size, queue). length queue)")
  show "wf (measure (\<lambda>(tie, nodes_with_size, queue). length queue))" by simp
next
  fix tie :: tie_rule and nodes_with_size :: "NodeWithCount list" and queue :: "int list"
    and queue1 queue2 queue3 :: "int list" and nodes_with_size' :: "NodeWithCount list"
  assume long: "1 < length queue"
    and q1: "queue1 = pq_pop tie nodes_with_size queue"
    and q2: "queue2 = pq_pop tie nodes_with_size queue1"
    and q3: "queue3 = pq_push queue2 (to_int16 (int (length nodes_with_size') - 1))"
  have pop: "length (pq_pop tie nodes_with_size q) = length q - 1" if ne: "q \<noteq> []" for q
  proof -
    let ?c = "\<lambda>i. count (nodes_with_size ! nat i)"
    let ?cands = "pq_candidates nodes_with_size q"
    have "arg_min_list ?c q \<in> set q" using ne by (rule arg_min_list_in)
    moreover have "?c (arg_min_list ?c q) = Min (?c ` set q)"
      using ne by (rule f_arg_min_list_f)
    then have "\<forall>j \<in> set q. ?c (arg_min_list ?c q) \<le> ?c j"
      by (auto intro!: Min_le)
    ultimately have "arg_min_list ?c q \<in> set ?cands"
      by (auto simp: pq_candidates_def cmp_def list_all_iff not_less)
    then have "?cands \<noteq> []" by auto
    then have "pq_top tie nodes_with_size q \<in> set ?cands"
      by (simp add: pq_top_def Let_def)
    then have "pq_top tie nodes_with_size q \<in> set q"
      by (simp add: pq_candidates_def)
    then show ?thesis by (simp add: pq_pop_def length_remove1)
  qed
  from long have "queue \<noteq> []" by auto
  then have l1: "length queue1 = length queue - 1" by (simp add: q1 pop)
  with long have "queue1 \<noteq> []" by auto
  then have "length queue2 = length queue1 - 1" by (simp add: q2 pop)
  with l1 long have "length queue3 < length queue" by (simp add: q3 pq_push_def)
  then show "((tie, nodes_with_size', queue3), (tie, nodes_with_size, queue))
      \<in> measure (\<lambda>(tie, nodes_with_size, queue). length queue)"
    by simp
qed

declare merge_loop.simps [simp del]

text \<open>
  \<open>Encoded::init_tree\<close>.  The queue is filled with the indices of the leaves; the
  cases 0 and 1 of the \<open>switch\<close> return at once; otherwise the loop runs and the arena
  is the nodes of \<open>nodes_with_size\<close>.  \<open>input_data.front()\<close> is read only when the queue
  holds one index, hence when the input is not empty.
\<close>

definition init_tree :: "tie_rule \<Rightarrow> uint8 list \<Rightarrow> Encoded \<Rightarrow> Encoded" where
  "init_tree tie input_data e =
     (let nodes_with_size = make_leaf_nodes (count_bytes input_data);
          sz = to_int16 (int (length nodes_with_size));
          queue = foldl (\<lambda>q i. if count (nodes_with_size ! nat i) \<noteq> 0 then pq_push q i else q)
                    [] (map int [0..<nat sz])
      in if length queue = 0 then
           e\<lparr>nodes := [\<lparr>left = - 1, right = - 1, nvalue = 0\<rparr>]\<rparr>
         else if length queue = 1 then
           e\<lparr>nodes := [\<lparr>left = - 1, right = - 1, nvalue = hd input_data\<rparr>,
                        \<lparr>left = - 1, right = 0, nvalue = 0\<rparr>]\<rparr>
         else
           e\<lparr>nodes := map node (fst (merge_loop tie nodes_with_size queue))\<rparr>)"

subsection \<open>Code table\<close>

text \<open>
  \<open>CharDictT\<close> is an array of 256 strings indexed by a byte: a function from bytes to
  keys.  A key is a string of the characters 0 (left) and 1 (right), modelled as a list
  of booleans, so that \<open>!!bit\<close> is the bit itself.

  \<open>init_dict\<close> recurses along child indices and need not return on a cyclic arena, so
  it is a partial function: \<open>None\<close> is the failed assertion \<open>root < nodes.size()\<close> (an
  out-of-bounds read without it), \<open>key.back()\<close> or \<open>key.pop_back()\<close> on an empty key,
  or a recursion that never returns.  The state is the dictionary and the key, both
  passed by reference in the source: \<open>key.push_back(0)\<close> appends to the key,
  \<open>key.back() = 1\<close> overwrites the last character of the key that the first call left,
  \<open>key.pop_back()\<close> drops the last character of the key that the second call left.
\<close>

type_synonym CharDictT = "uint8 \<Rightarrow> bool list"

partial_function (option) init_dict ::
  "Node list \<Rightarrow> int \<Rightarrow> CharDictT \<times> bool list \<Rightarrow> (CharDictT \<times> bool list) option" where
  "init_dict ns r s =
     (if r < 0 then Some s
      else if \<not> r < int (length ns) then None
      else
        let elm = ns ! nat r in
        if isLeaf elm then Some ((fst s)(nvalue elm := snd s), snd s)
        else
          Option.bind (init_dict ns (left elm) (fst s, snd s @ [False])) (\<lambda>s1.
          if snd s1 = [] then None
          else
            Option.bind (init_dict ns (right elm) (fst s1, butlast (snd s1) @ [True])) (\<lambda>s2.
            if snd s2 = [] then None
            else Some (fst s2, butlast (snd s2)))))"

declare init_dict.simps [code]

text \<open>The three-argument overload: an empty key to start with.\<close>

definition init_dict_top :: "Node list \<Rightarrow> int \<Rightarrow> CharDictT \<Rightarrow> CharDictT option" where
  "init_dict_top ns r dict = map_option fst (init_dict ns r (dict, []))"

subsection \<open>Encoding\<close>

text \<open>
  \<open>BinOp\<close>, the operator of the reduction of step 2.  An operand is a partial sum
  (\<open>size_t\<close>) or an input byte (\<open>uint8_t\<close>); the four overloads are the four cases.
\<close>

fun BinOp :: "CharDictT \<Rightarrow> nat + uint8 \<Rightarrow> nat + uint8 \<Rightarrow> nat" where
  "BinOp dict (Inl a) (Inl b) = a + b"
| "BinOp dict (Inl a) (Inr b) = a + length (dict b)"
| "BinOp dict (Inr a) (Inl b) = length (dict a) + b"
| "BinOp dict (Inr a) (Inr b) = length (dict a) + length (dict b)"

text \<open>
  \<open>std::reduce\<close> returns a generalised sum of the initial value and the elements: the
  operator applied along some grouping of some arrangement of the operands.  A grouping
  is a \<open>reduction\<close>; \<open>reduce_with\<close> evaluates it, \<open>operands\<close> lists the elements it
  combines and \<open>inits\<close> counts its uses of the initial value.  \<open>reduce_seq\<close> is the
  grouping of a sequential run, from the left.
\<close>

datatype reduction = Init | Elem uint8 | Op reduction reduction

fun reduce_with :: "CharDictT \<Rightarrow> reduction \<Rightarrow> nat + uint8" where
  "reduce_with dict Init = Inl 0"
| "reduce_with dict (Elem b) = Inr b"
| "reduce_with dict (Op l r) = Inl (BinOp dict (reduce_with dict l) (reduce_with dict r))"

fun operands :: "reduction \<Rightarrow> uint8 list" where
  "operands Init = []"
| "operands (Elem b) = [b]"
| "operands (Op l r) = operands l @ operands r"

fun inits :: "reduction \<Rightarrow> nat" where
  "inits Init = 1"
| "inits (Elem b) = 0"
| "inits (Op l r) = inits l + inits r"

definition reduce_seq :: "CharDictT \<Rightarrow> uint8 list \<Rightarrow> nat" where
  "reduce_seq dict input_data = foldl (\<lambda>a b. BinOp dict (Inl a) (Inr b)) 0 input_data"

text \<open>
  \<open>code_table\<close> is step 1 of \<open>init_binary_data\<close>: the dictionary that \<open>init_dict\<close>
  fills from an array of empty strings, started at \<open>root_index()\<close>.

  \<open>resize\<close> is \<open>binary_data_.resize(size)\<close>: the vector is cut, or filled up with zero
  bits, to the given size.

  Step 3 of \<open>init_binary_data\<close>: the inner loop writes the bits of one key at
  \<open>bit_iter\<close>, the outer loop runs over the input.  A write past the size the vector was
  given is an out-of-bounds write in the source and \<open>None\<close> here.
\<close>

fun fill_key :: "bool list \<Rightarrow> bool list \<times> nat \<Rightarrow> (bool list \<times> nat) option" where
  "fill_key [] s = Some s"
| "fill_key (b # bs) (bd, bit_iter) =
     (if bit_iter < length bd then fill_key bs (bd[bit_iter := b], Suc bit_iter) else None)"

fun fill :: "CharDictT \<Rightarrow> uint8 list \<Rightarrow> bool list \<times> nat \<Rightarrow> (bool list \<times> nat) option" where
  "fill dict [] s = Some s"
| "fill dict (ch # rest) s = Option.bind (fill_key (dict ch) s) (fill dict rest)"

definition code_table :: "Encoded \<Rightarrow> CharDictT option" where
  "code_table e = init_dict_top (nodes e) (root_index e) (\<lambda>_. [])"

definition resize :: "nat \<Rightarrow> bool list \<Rightarrow> bool list" where
  "resize n bd = take n bd @ replicate (n - length bd) False"

definition init_binary_data :: "uint8 list \<Rightarrow> Encoded \<Rightarrow> Encoded option" where
  "init_binary_data input_data e =
     Option.bind (code_table e) (\<lambda>dict.
       let sz = reduce_seq dict input_data in
       map_option (\<lambda>s. e\<lparr>binary_data := fst s\<rparr>)
         (fill dict input_data (resize sz (binary_data e), 0)))"

text \<open>\<open>Encoded::encode\<close> on a span of bytes.\<close>

definition encode :: "tie_rule \<Rightarrow> uint8 list \<Rightarrow> Encoded option" where
  "encode tie input_data = init_binary_data input_data (init_tree tie input_data Encoded_default)"

subsection \<open>Decoding\<close>

text \<open>
  \<open>Encoded::decode\<close>: \<open>node\<close> is a copy of the current node, the loop runs over the
  bits.  An index that is negative (the sentinel, converted to an unsigned index) or not
  below the size of the arena is an out-of-bounds read.
\<close>

fun decode_loop :: "Node list \<Rightarrow> Node \<Rightarrow> bool list \<Rightarrow> uint8 list \<Rightarrow> error + uint8 list" where
  "decode_loop ns nd [] str = Inr str"
| "decode_loop ns nd (i # bits) str =
     (let go_right = i;
          idx = (if go_right then right nd else left nd)
      in if idx < 0 \<or> \<not> idx < int (length ns) then Inl (IndexOutOfBounds idx)
         else
           let nd' = ns ! nat idx in
           if isLeaf nd' then decode_loop ns (last ns) bits (str @ [nvalue nd'])
           else decode_loop ns nd' bits str)"

definition decode :: "Encoded \<Rightarrow> error + uint8 list" where
  "decode e =
     (case root e of
        Inl err \<Rightarrow> Inl err
      | Inr nd \<Rightarrow> decode_loop (nodes e) nd (binary_data e) [])"

subsection \<open>Input adapters\<close>

text \<open>
  The other overloads of \<open>encode\<close> take a pointer and a size, a span of \<open>std::byte\<close>
  and a \<open>string_view\<close>.  Memory is a function from addresses to bytes; a span or a view
  is the address of its first element and its size, and every element type here
  occupies one byte.  \<open>span_bytes\<close> is the byte sequence that
  \<open>std::span{static_cast<uint8_t const *>(source), size}\<close> views.
\<close>

type_synonym memory = "nat \<Rightarrow> uint8"

definition span_bytes :: "memory \<Rightarrow> nat \<Rightarrow> nat \<Rightarrow> uint8 list" where
  "span_bytes mem source sz = map mem [source..<source + sz]"

definition encode_ptr :: "tie_rule \<Rightarrow> memory \<Rightarrow> nat \<Rightarrow> nat \<Rightarrow> Encoded option" where
  "encode_ptr tie mem source sz = encode tie (span_bytes mem source sz)"

definition encode_byte_span :: "tie_rule \<Rightarrow> memory \<Rightarrow> nat \<times> nat \<Rightarrow> Encoded option" where
  "encode_byte_span tie mem input_data = encode_ptr tie mem (fst input_data) (snd input_data)"

definition encode_string_view :: "tie_rule \<Rightarrow> memory \<Rightarrow> nat \<times> nat \<Rightarrow> Encoded option" where
  "encode_string_view tie mem input_data = encode_ptr tie mem (fst input_data) (snd input_data)"

section \<open>Specification vocabulary\<close>

text \<open>
  The predicates below are not functions of the source; the properties are stated and
  proved with them.
\<close>

text \<open>The leaf that \<open>make_leaf_nodes\<close> builds for the index \<open>i\<close>, and the indices of non-zero
  count, in increasing order.\<close>

definition leaf_of :: "nat list \<Rightarrow> nat \<Rightarrow> NodeWithCount" where
  "leaf_of counts i = \<lparr>node = \<lparr>left = - 1, right = - 1, nvalue = of_nat i\<rparr>, count = counts ! i\<rparr>"

definition present :: "uint8 list \<Rightarrow> nat list" where
  "present bytes = filter (\<lambda>i. count_list bytes (of_nat i) \<noteq> 0) [0..<256]"

text \<open>
  \<open>reach ns r k v\<close>: in the arena \<open>ns\<close>, the key \<open>k\<close> leads from the index \<open>r\<close> through
  internal nodes to a leaf of value \<open>v\<close> (false for 0, right child for 1, as \<open>init_dict\<close>
  writes keys).  \<open>arena_wf\<close>: every child field is the sentinel or an index below that
  of its node.
\<close>

fun reach :: "Node list \<Rightarrow> int \<Rightarrow> bool list \<Rightarrow> uint8 \<Rightarrow> bool" where
  "reach ns r [] v = (0 \<le> r \<and> r < int (length ns) \<and> isLeaf (ns ! nat r) \<and> nvalue (ns ! nat r) = v)"
| "reach ns r (b # k) v =
     (0 \<le> r \<and> r < int (length ns) \<and> \<not> isLeaf (ns ! nat r) \<and>
      reach ns (if b then right (ns ! nat r) else left (ns ! nat r)) k v)"

definition arena_wf :: "Node list \<Rightarrow> bool" where
  "arena_wf ns =
     (\<forall>i < length ns. - 1 \<le> left (ns ! i) \<and> left (ns ! i) < int i \<and>
                         - 1 \<le> right (ns ! i) \<and> right (ns ! i) < int i)"

text \<open>
  The invariant of the merge loop: the arena is well formed, the queue holds indices of
  \<open>nodes_with_size\<close>, the last index among them, every byte value of the input has its
  leaf below an index of the queue, and each iteration trades one index of the queue
  for one node.
\<close>

definition merge_inv :: "uint8 list \<Rightarrow> NodeWithCount list \<Rightarrow> int list \<Rightarrow> bool" where
  "merge_inv bytes nws q =
     (arena_wf (map node nws) \<and>
      (\<forall>r \<in> set q. 0 \<le> r \<and> r < int (length nws)) \<and>
      int (length nws) - 1 \<in> set q \<and>
      length nws + length q = 2 * card (set bytes) \<and>
      (\<forall>b \<in> set bytes. \<exists>r \<in> set q. \<exists>k. reach (map node nws) r k b))"

text \<open>What \<open>init_tree\<close> establishes for the arena, and \<open>encode\<close> for the artifact.\<close>

definition tree_ok :: "uint8 list \<Rightarrow> Node list \<Rightarrow> bool" where
  "tree_ok bytes ns =
     (ns \<noteq> [] \<and> length ns \<le> 511 \<and> arena_wf ns \<and>
      (\<forall>b \<in> set bytes. \<exists>k. reach ns (int (length ns) - 1) k b) \<and>
      (bytes \<noteq> [] \<longrightarrow> \<not> isLeaf (last ns)) \<and>
      length ns = (if card (set bytes) = 0 then 1 else if card (set bytes) = 1 then 2
                   else 2 * card (set bytes) - 1))"

definition dict_covers :: "Node list \<Rightarrow> int \<Rightarrow> bool list \<Rightarrow> CharDictT \<Rightarrow> CharDictT \<Rightarrow> bool" where
  "dict_covers ns r key d d' =
     (\<forall>v. (\<exists>k. reach ns r k v \<and> d' v = key @ k) \<or> ((\<forall>k. \<not> reach ns r k v) \<and> d' v = d v))"

definition encode_post :: "uint8 list \<Rightarrow> Encoded \<Rightarrow> CharDictT \<Rightarrow> bool" where
  "encode_post bytes e dict =
     (tree_ok bytes (nodes e) \<and> code_table e = Some dict \<and>
      binary_data e = concat (map dict bytes) \<and>
      (\<forall>b \<in> set bytes. reach (nodes e) (root_index e) (dict b) b))"

text \<open>The contribution of an operand of the reduction: a partial sum counts as itself, a
  byte as the length of its key.\<close>

fun weight :: "CharDictT \<Rightarrow> nat + uint8 \<Rightarrow> nat" where
  "weight dict (Inl a) = a"
| "weight dict (Inr b) = length (dict b)"

text \<open>
  The walk of \<open>decode\<close> from the node \<open>nd\<close>: \<open>codeword ns nd k v\<close> when the bits \<open>k\<close> lead
  from \<open>nd\<close> through nodes that are not leaves to a leaf of value \<open>v\<close>, reached with the
  last bit; \<open>midway ns nd p\<close> when the bits \<open>p\<close> lead from \<open>nd\<close> through nodes of the arena
  none of which is a leaf.
\<close>

fun codeword :: "Node list \<Rightarrow> Node \<Rightarrow> bool list \<Rightarrow> uint8 \<Rightarrow> bool" where
  "codeword ns nd [] v = False"
| "codeword ns nd (b # k) v =
     (let idx = (if b then right nd else left nd)
      in 0 \<le> idx \<and> idx < int (length ns) \<and>
         (if isLeaf (ns ! nat idx) then k = [] \<and> nvalue (ns ! nat idx) = v
          else codeword ns (ns ! nat idx) k v))"

fun midway :: "Node list \<Rightarrow> Node \<Rightarrow> bool list \<Rightarrow> bool" where
  "midway ns nd [] = True"
| "midway ns nd (b # p) =
     (let idx = (if b then right nd else left nd)
      in 0 \<le> idx \<and> idx < int (length ns) \<and> \<not> isLeaf (ns ! nat idx) \<and>
         midway ns (ns ! nat idx) p)"

section \<open>Properties\<close>

subsection \<open>The priority queue\<close>

lemma pq_candidates_nonempty: "queue \<noteq> [] \<Longrightarrow> pq_candidates nodes_with_size queue \<noteq> []"
proof -
  assume ne: "queue \<noteq> []"
  define c where "c = (\<lambda>i. count (nodes_with_size ! nat i))"
  obtain m where m: "m \<in> set queue" "\<forall>j \<in> set queue. c m \<le> c j"
    using ex_min_if_finite [of "c ` set queue"] ne
    by (metis (no_types, lifting) List.finite_set arg_min_list_in f_arg_min_list_f
        Min_le finite_imageI imageI)
  then have "m \<in> set (pq_candidates nodes_with_size queue)"
    by (auto simp: pq_candidates_def cmp_def list_all_iff c_def not_less)
  then show ?thesis by auto
qed

lemma pq_top_in_candidates:
  "queue \<noteq> [] \<Longrightarrow> pq_top tie nodes_with_size queue \<in> set (pq_candidates nodes_with_size queue)"
  using pq_candidates_nonempty [of queue nodes_with_size]
  by (simp add: pq_top_def Let_def)

lemma pq_top_in_queue: "queue \<noteq> [] \<Longrightarrow> pq_top tie nodes_with_size queue \<in> set queue"
  using pq_top_in_candidates [of queue tie nodes_with_size]
  by (simp add: pq_candidates_def)

lemma pq_top_least:
  "queue \<noteq> [] \<Longrightarrow> j \<in> set queue \<Longrightarrow>
   count (nodes_with_size ! nat (pq_top tie nodes_with_size queue)) \<le> count (nodes_with_size ! nat j)"
  using pq_top_in_candidates [of queue tie nodes_with_size]
  by (auto simp: pq_candidates_def cmp_def list_all_iff not_less)

lemma length_pq_pop:
  "queue \<noteq> [] \<Longrightarrow> length (pq_pop tie nodes_with_size queue) = length queue - 1"
  by (simp add: pq_pop_def length_remove1 pq_top_in_queue)

subsection \<open>Frequency table and leaves\<close>

lemma to_int16_id: "0 \<le> x \<Longrightarrow> x < 32768 \<Longrightarrow> to_int16 x = x"
  by (simp add: to_int16_def)

lemma to_int16_minus1: "to_int16 (- 1) = - 1"
  by (simp add: to_int16_def)

lemma count_bytes_foldl:
  "length cs = 256 \<Longrightarrow>
   length (foldl (\<lambda>counts ch. counts[unat ch := Suc (counts ! unat ch)]) cs bytes) = 256 \<and>
   (\<forall>b :: uint8. foldl (\<lambda>counts ch. counts[unat ch := Suc (counts ! unat ch)]) cs bytes ! unat b
        = cs ! unat b + count_list bytes b)"
proof (induction bytes arbitrary: cs)
  case Nil
  then show ?case by simp
next
  case (Cons a bytes)
  have lt: "unat c < 256" for c :: uint8
    using unsigned_less [of c] by simp
  have len: "length (cs[unat a := Suc (cs ! unat a)]) = 256"
    using Cons.prems by simp
  show ?case
    using Cons.IH [OF len] Cons.prems lt
    by (auto simp: nth_list_update word_unat_eq_iff)
qed

lemma length_count_bytes: "length (count_bytes bytes) = 256"
  using count_bytes_foldl [of "replicate 256 0" bytes] by (simp add: count_bytes_def)

lemma count_bytes_nth: "count_bytes bytes ! unat b = count_list bytes b"
proof -
  have "unat b < 256" using unsigned_less [of b] by simp
  then show ?thesis
    using count_bytes_foldl [of "replicate 256 0" bytes] by (simp add: count_bytes_def)
qed

lemma make_leaf_nodes_foldl:
  "foldl (\<lambda>acc i. if counts ! i \<noteq> 0 then acc @ [leaf_of counts i] else acc) acc xs
   = acc @ map (leaf_of counts) (filter (\<lambda>i. counts ! i \<noteq> 0) xs)"
  by (induction xs arbitrary: acc) auto

lemma make_leaf_nodes_eq:
  "make_leaf_nodes counts = map (leaf_of counts) (filter (\<lambda>i. counts ! i \<noteq> 0) [0..<length counts])"
proof -
  have "make_leaf_nodes counts =
    foldl (\<lambda>acc i. if counts ! i \<noteq> 0 then acc @ [leaf_of counts i] else acc) [] [0..<length counts]"
    unfolding make_leaf_nodes_def leaf_of_def by (rule refl)
  then show ?thesis by (simp only: make_leaf_nodes_foldl append_Nil)
qed

lemma leaves_eq:
  "make_leaf_nodes (count_bytes bytes) = map (leaf_of (count_bytes bytes)) (present bytes)"
proof -
  have "filter (\<lambda>i. count_bytes bytes ! i \<noteq> 0) [0..<256] = present bytes"
    unfolding present_def
  proof (rule filter_cong [OF refl])
    fix i assume "i \<in> set [0..<256]"
    then have "unat (of_nat i :: uint8) = i" by (simp add: unat_of_nat)
    then show "(count_bytes bytes ! i \<noteq> 0) = (count_list bytes (of_nat i) \<noteq> 0)"
      using count_bytes_nth [of bytes "of_nat i"] by simp
  qed
  then show ?thesis by (simp add: make_leaf_nodes_eq length_count_bytes)
qed

lemma set_present: "set (present bytes) = unat ` set bytes"
proof
  show "set (present bytes) \<subseteq> unat ` set bytes"
  proof
    fix i assume "i \<in> set (present bytes)"
    then have i: "i < 256" "count_list bytes (of_nat i) \<noteq> 0" by (auto simp: present_def)
    then have "(of_nat i :: uint8) \<in> set bytes" by (simp add: count_list_0_iff)
    moreover have "unat (of_nat i :: uint8) = i" using i by (simp add: unat_of_nat)
    ultimately show "i \<in> unat ` set bytes" by force
  qed
next
  show "unat ` set bytes \<subseteq> set (present bytes)"
  proof
    fix i assume "i \<in> unat ` set bytes"
    then obtain b where b: "b \<in> set bytes" "i = unat b" by auto
    have "unat b < 256" using unsigned_less [of b] by simp
    then show "i \<in> set (present bytes)"
      using b by (simp add: present_def count_list_0_iff)
  qed
qed

lemma distinct_present: "distinct (present bytes)"
  by (simp add: present_def)

lemma length_present: "length (present bytes) = card (set bytes)"
proof -
  have "length (present bytes) = card (set (present bytes))"
    by (simp add: distinct_card distinct_present)
  also have "\<dots> = card (unat ` set bytes)" by (simp add: set_present)
  also have "\<dots> = card (set bytes)" by (rule card_image) (simp add: inj_on_def word_unat_eq_iff)
  finally show ?thesis .
qed

lemma card_bytes_le: "card (set (bytes :: uint8 list)) \<le> 256"
proof -
  have "length (present bytes) \<le> length [0..<256]"
    unfolding present_def by (rule length_filter_le)
  then show ?thesis by (simp add: length_present)
qed

subsection \<open>Paths in the arena and the merge loop\<close>

lemma reach_in_range: "reach ns r k v \<Longrightarrow> 0 \<le> r \<and> r < int (length ns)"
  by (cases k) auto

lemma reach_append:
  "arena_wf ns \<Longrightarrow> r < int (length ns) \<Longrightarrow> reach (ns @ ext) r k v = reach ns r k v"
proof (induction k arbitrary: r)
  case Nil
  then show ?case by (auto simp: nth_append)
next
  case (Cons b k)
  show ?case
  proof (cases "0 \<le> r")
    case False
    then show ?thesis by simp
  next
    case True
    with Cons.prems have lt: "nat r < length ns" by simp
    then have same: "(ns @ ext) ! nat r = ns ! nat r" by (simp add: nth_append)
    show ?thesis
    proof (cases "isLeaf (ns ! nat r)")
      case True
      then show ?thesis by (simp add: same)
    next
      case False
      with Cons.prems(1) lt True have
        "left (ns ! nat r) < int (length ns)" "right (ns ! nat r) < int (length ns)"
        by (auto simp: arena_wf_def dest!: spec [of _ "nat r"])
      then show ?thesis
        using Cons.IH [OF Cons.prems(1)] True Cons.prems(2) by (simp add: same)
    qed
  qed
qed

lemma arena_wf_snoc:
  "arena_wf ns \<Longrightarrow> - 1 \<le> left x \<Longrightarrow> left x < int (length ns) \<Longrightarrow>
   - 1 \<le> right x \<Longrightarrow> right x < int (length ns) \<Longrightarrow> arena_wf (ns @ [x])"
  by (auto simp: arena_wf_def nth_append less_Suc_eq)

lemma merge_inv_step:
  fixes tie :: tie_rule
  assumes inv: "merge_inv bytes nws q" and long: "1 < length q"
  defines "back1 \<equiv> pq_top tie nws q"
  defines "q1 \<equiv> pq_pop tie nws q"
  defines "back2 \<equiv> pq_top tie nws q1"
  defines "q2 \<equiv> pq_pop tie nws q1"
  defines "nws' \<equiv> nws @ [\<lparr>node = \<lparr>left = back1, right = back2, nvalue = 0\<rparr>,
                count = count (nws ! nat back1) + count (nws ! nat back2)\<rparr>]"
  defines "q3 \<equiv> pq_push q2 (to_int16 (int (length nws') - 1))"
  shows "merge_inv bytes nws' q3"
proof -
  from long have qne: "q \<noteq> []" by auto
  have b1: "back1 \<in> set q" unfolding back1_def by (rule pq_top_in_queue [OF qne])
  have l1: "length q1 = length q - 1" unfolding q1_def by (rule length_pq_pop [OF qne])
  with long have q1ne: "q1 \<noteq> []" by auto
  have b2q1: "back2 \<in> set q1" unfolding back2_def by (rule pq_top_in_queue [OF q1ne])
  have q1sub: "set q1 \<subseteq> set q" unfolding q1_def pq_pop_def by (rule set_remove1_subset)
  with b2q1 have b2: "back2 \<in> set q" by auto
  have l2: "length q2 = length q1 - 1" unfolding q2_def by (rule length_pq_pop [OF q1ne])
  have q2sub: "set q2 \<subseteq> set q1" unfolding q2_def pq_pop_def by (rule set_remove1_subset)
  have q1_def': "q1 = remove1 back1 q" by (simp add: q1_def pq_pop_def back1_def)
  have q2_def': "q2 = remove1 back2 q1" by (simp add: q2_def pq_pop_def back2_def)
  have keep: "r \<in> set q2" if "r \<in> set q" "r \<noteq> back1" "r \<noteq> back2" for r
    using that by (simp add: q1_def' q2_def')
  from inv have wf: "arena_wf (map node nws)"
    and rng: "\<forall>r \<in> set q. 0 \<le> r \<and> r < int (length nws)"
    and len: "length nws + length q = 2 * card (set bytes)"
    and cov: "\<forall>b \<in> set bytes. \<exists>r \<in> set q. \<exists>k. reach (map node nws) r k b"
    by (auto simp: merge_inv_def)
  have "length nws < 32768"
    using len card_bytes_le [of bytes] by linarith
  then have idx: "to_int16 (int (length nws') - 1) = int (length nws)"
    by (simp add: nws'_def to_int16_id)
  have q3: "q3 = q2 @ [int (length nws)]" by (simp add: q3_def pq_push_def idx)
  have r1: "0 \<le> back1" "back1 < int (length nws)" and r2: "0 \<le> back2" "back2 < int (length nws)"
    using rng b1 b2 by auto
  let ?new = "\<lparr>left = back1, right = back2, nvalue = 0\<rparr>"
  have nodes': "map node nws' = map node nws @ [?new]" by (simp add: nws'_def)
  have notleaf: "\<not> isLeaf ?new" using r1 by (simp add: isLeaf_def)
  have wf': "arena_wf (map node nws')"
    unfolding nodes' using wf r1 r2 by (intro arena_wf_snoc) simp_all
  have old: "reach (map node nws') r k v = reach (map node nws) r k v" if "r < int (length nws)" for r k v
    unfolding nodes' using reach_append [OF wf, of r] that by simp
  have new: "reach (map node nws') (int (length nws)) (c # k) v
      = reach (map node nws) (if c then back2 else back1) k v" for c k v
    using notleaf r1 r2 old by (simp add: nodes' nth_append)
  have cov': "\<exists>r \<in> set q3. \<exists>k. reach (map node nws') r k b" if "b \<in> set bytes" for b
  proof -
    from cov that obtain r k where r: "r \<in> set q" and k: "reach (map node nws) r k b" by blast
    show ?thesis
    proof (cases "r = back1 \<or> r = back2")
      case True
      then have "reach (map node nws) (if r \<noteq> back1 then back2 else back1) k b"
        using k by auto
      then have "reach (map node nws') (int (length nws)) ((r \<noteq> back1) # k) b"
        by (simp only: new)
      then show ?thesis unfolding q3 by (auto simp del: reach.simps)
    next
      case False
      then have "r \<in> set q2" using keep r by simp
      moreover have "reach (map node nws') r k b" using old rng r k by simp
      ultimately show ?thesis unfolding q3 by (auto simp del: reach.simps)
    qed
  qed
  have rng': "\<forall>r \<in> set q3. 0 \<le> r \<and> r < int (length nws')"
  proof
    fix r assume "r \<in> set q3"
    then consider "r \<in> set q" | "r = int (length nws)"
      using q2sub q1sub by (auto simp: q3)
    then show "0 \<le> r \<and> r < int (length nws')"
      using rng by cases (auto simp: nws'_def)
  qed
  have len': "length nws' + length q3 = 2 * card (set bytes)"
    using len l1 l2 long by (simp add: q3 nws'_def)
  have last': "int (length nws') - 1 \<in> set q3" by (simp add: q3 nws'_def)
  show ?thesis
    unfolding merge_inv_def using wf' rng' last' len' cov' by blast
qed

lemma merge_loop_inv:
  "merge_inv bytes nws q \<Longrightarrow> q \<noteq> [] \<Longrightarrow> merge_loop tie nws q = (nws', q') \<Longrightarrow>
   merge_inv bytes nws' q' \<and> length q' = 1"
proof (induction tie nws q rule: merge_loop.induct)
  case (1 tie nodes_with_size queue)
  show ?case
  proof (cases "1 < length queue")
    case False
    then have "merge_loop tie nodes_with_size queue = (nodes_with_size, queue)"
      by (subst merge_loop.simps) simp
    with "1.prems" False show ?thesis
      by (cases queue) auto
  next
    case True
    let ?back1 = "pq_top tie nodes_with_size queue"
    let ?q1 = "pq_pop tie nodes_with_size queue"
    let ?back2 = "pq_top tie nodes_with_size ?q1"
    let ?q2 = "pq_pop tie nodes_with_size ?q1"
    let ?n = "nodes_with_size @ [\<lparr>node = \<lparr>left = ?back1, right = ?back2, nvalue = 0\<rparr>,
                count = count (nodes_with_size ! nat ?back1) + count (nodes_with_size ! nat ?back2)\<rparr>]"
    let ?q3 = "pq_push ?q2 (to_int16 (int (length ?n) - 1))"
    have inv: "merge_inv bytes ?n ?q3"
      by (rule merge_inv_step [OF "1.prems"(1) True])
    have ne: "?q3 \<noteq> []" by (simp add: pq_push_def)
    have "merge_loop tie nodes_with_size queue = merge_loop tie ?n ?q3"
      using True by (subst merge_loop.simps) (simp add: Let_def)
    then have run: "merge_loop tie ?n ?q3 = (nws', q')"
      using "1.prems"(3) by simp
    show ?thesis
      by (rule "1.IH" [OF True refl refl refl refl refl refl inv ne run])
  qed
qed

lemma queue_foldl:
  "(\<forall>i \<in> set xs. P i) \<Longrightarrow> foldl (\<lambda>q i. if P i then pq_push q i else q) acc xs = acc @ xs"
  by (induction xs arbitrary: acc) (auto simp: pq_push_def)

lemma length_leaves: "length (make_leaf_nodes (count_bytes bytes)) = card (set bytes)"
  by (simp add: leaves_eq length_present)

lemma leaves_nth:
  assumes "i < card (set bytes)"
  shows "make_leaf_nodes (count_bytes bytes) ! i = leaf_of (count_bytes bytes) (present bytes ! i)"
    and "count_bytes bytes ! (present bytes ! i) \<noteq> 0"
proof -
  from assms have i: "i < length (present bytes)" by (simp add: length_present)
  then show "make_leaf_nodes (count_bytes bytes) ! i = leaf_of (count_bytes bytes) (present bytes ! i)"
    by (simp add: leaves_eq)
  from i have "present bytes ! i \<in> set (present bytes)" by simp
  then obtain b where b: "b \<in> set bytes" "present bytes ! i = unat b"
    by (auto simp: set_present)
  then show "count_bytes bytes ! (present bytes ! i) \<noteq> 0"
    by (simp add: count_bytes_nth count_list_0_iff)
qed

lemma init_queue:
  fixes bytes :: "uint8 list"
  defines "nws \<equiv> make_leaf_nodes (count_bytes bytes)"
  shows "foldl (\<lambda>q i. if count (nws ! nat i) \<noteq> 0 then pq_push q i else q) []
           (map int [0..<nat (to_int16 (int (length nws)))])
         = map int [0..<card (set bytes)]"
proof -
  have len: "length nws = card (set bytes)" by (simp add: nws_def length_leaves)
  have "card (set bytes) \<le> 256" by (rule card_bytes_le)
  then have sz: "to_int16 (int (length nws)) = int (card (set bytes))"
    by (simp add: len to_int16_id)
  have "\<forall>i \<in> set (map int [0..<card (set bytes)]). count (nws ! nat i) \<noteq> 0"
    using leaves_nth [of _ bytes] by (auto simp: nws_def leaf_of_def)
  then show ?thesis
    by (simp only: sz nat_int queue_foldl append_Nil)
qed

lemma merge_inv_init:
  assumes "bytes \<noteq> []"
  shows "merge_inv bytes (make_leaf_nodes (count_bytes bytes)) (map int [0..<card (set bytes)])"
proof -
  let ?nws = "make_leaf_nodes (count_bytes bytes)"
  let ?k = "card (set bytes)"
  have len: "length ?nws = ?k" by (rule length_leaves)
  from assms have kpos: "0 < ?k" by (simp add: card_gt_0_iff)
  have leaf: "node (?nws ! i) = \<lparr>left = - 1, right = - 1, nvalue = of_nat (present bytes ! i)\<rparr>"
    if "i < ?k" for i
    using leaves_nth(1) [OF that] by (simp add: leaf_of_def)
  have wf: "arena_wf (map node ?nws)"
    by (auto simp: arena_wf_def len leaf isLeaf_def)
  have cov: "\<exists>r \<in> set (map int [0..<?k]). \<exists>k. reach (map node ?nws) r k b" if "b \<in> set bytes" for b
  proof -
    from that have "unat b \<in> set (present bytes)" by (simp add: set_present)
    then obtain i where i: "i < length (present bytes)" "present bytes ! i = unat b"
      by (auto simp: in_set_conv_nth)
    then have ik: "i < ?k" by (simp add: length_present)
    have "reach (map node ?nws) (int i) [] b"
      using ik i by (simp add: len leaf isLeaf_def)
    moreover have "int i \<in> set (map int [0..<?k])" using ik by simp
    ultimately show ?thesis by blast
  qed
  have last: "int (length ?nws) - 1 \<in> set (map int [0..<?k])"
  proof -
    have "?k - 1 \<in> set [0..<?k]" using kpos by simp
    then have "int (?k - 1) \<in> int ` set [0..<?k]" by (rule imageI)
    then have "int (?k - 1) \<in> set (map int [0..<?k])" by (simp only: set_map)
    moreover have "int (?k - 1) = int ?k - 1" using kpos by simp
    ultimately show ?thesis by (simp only: len)
  qed
  show ?thesis
    unfolding merge_inv_def using wf cov last by (auto simp: len)
qed

lemma init_tree_cases:
  "nodes (init_tree tie bytes e) =
     (if card (set bytes) = 0 then [\<lparr>left = - 1, right = - 1, nvalue = 0\<rparr>]
      else if card (set bytes) = 1 then
        [\<lparr>left = - 1, right = - 1, nvalue = hd bytes\<rparr>, \<lparr>left = - 1, right = 0, nvalue = 0\<rparr>]
      else map node (fst (merge_loop tie (make_leaf_nodes (count_bytes bytes))
                            (map int [0..<card (set bytes)]))))"
  unfolding init_tree_def Let_def init_queue by simp

lemma init_tree_binary_data: "binary_data (init_tree tie bytes e) = binary_data e"
  unfolding init_tree_def Let_def by simp

lemma merge_result:
  fixes tie :: tie_rule
  assumes two: "2 \<le> card (set bytes)"
  defines "res \<equiv> merge_loop tie (make_leaf_nodes (count_bytes bytes)) (map int [0..<card (set bytes)])"
  shows "merge_inv bytes (fst res) [int (length (fst res)) - 1]"
    and "length (fst res) = 2 * card (set bytes) - 1"
    and "snd res = [int (length (fst res)) - 1]"
proof -
  from two have ne: "bytes \<noteq> []" by auto
  from two have qne: "map int [0..<card (set bytes)] \<noteq> []" by auto
  obtain nws' q' where r: "res = (nws', q')" by (cases res)
  have inv: "merge_inv bytes nws' q'" and l: "length q' = 1"
    using merge_loop_inv [OF merge_inv_init [OF ne] qne r [unfolded res_def]] by auto
  from l obtain x where q': "q' = [x]" by (cases q') auto
  from inv have "int (length nws') - 1 \<in> set q'" by (simp add: merge_inv_def)
  then have x: "x = int (length nws') - 1" by (simp add: q')
  show "merge_inv bytes (fst res) [int (length (fst res)) - 1]"
    using inv by (simp add: r q' x)
  from inv have "length nws' + length q' = 2 * card (set bytes)" by (simp add: merge_inv_def)
  then show "length (fst res) = 2 * card (set bytes) - 1" by (simp add: r l)
  show "snd res = [int (length (fst res)) - 1]" by (simp add: r q' x)
qed

lemma init_tree_ok: "tree_ok bytes (nodes (init_tree tie bytes e))"
proof -
  consider "card (set bytes) = 0" | "card (set bytes) = 1" | "2 \<le> card (set bytes)" by linarith
  then show ?thesis
  proof cases
    case 1
    then have "bytes = []" by simp
    then show ?thesis
      by (simp add: init_tree_cases tree_ok_def arena_wf_def isLeaf_def)
  next
    case 2
    then obtain v where v: "set bytes = {v}" by (auto simp: card_1_singleton_iff)
    then have ne: "bytes \<noteq> []" by auto
    then have "hd bytes \<in> set bytes" by simp
    then have hd: "hd bytes = v" using v by simp
    have "reach [\<lparr>left = - 1, right = - 1, nvalue = v\<rparr>, \<lparr>left = - 1, right = 0, nvalue = 0\<rparr>]
            1 [True] v"
      by (simp add: isLeaf_def)
    then have "\<exists>k. reach [\<lparr>left = - 1, right = - 1, nvalue = v\<rparr>,
            \<lparr>left = - 1, right = 0, nvalue = 0\<rparr>] 1 k v" ..
    then show ?thesis
      using 2 v by (simp add: init_tree_cases tree_ok_def arena_wf_def isLeaf_def hd less_Suc_eq)
  next
    case 3
    let ?res = "merge_loop tie (make_leaf_nodes (count_bytes bytes)) (map int [0..<card (set bytes)])"
    let ?ns = "map node (fst ?res)"
    from 3 have "card (set bytes) \<noteq> 0" "card (set bytes) \<noteq> 1" by auto
    then have ns: "nodes (init_tree tie bytes e) = ?ns" by (simp only: init_tree_cases if_False)
    note inv = merge_result(1) [OF 3, of tie] and len = merge_result(2) [OF 3, of tie]
    have k256: "card (set bytes) \<le> 256" by (rule card_bytes_le)
    have len': "length ?ns = 2 * card (set bytes) - 1" using len by simp
    have wf: "arena_wf ?ns" using inv by (simp add: merge_inv_def)
    have cov: "\<forall>b \<in> set bytes. \<exists>k. reach ?ns (int (length ?ns) - 1) k b"
      using inv by (simp add: merge_inv_def)
    have nonleaf: "\<not> isLeaf (last ?ns)"
    proof
      assume leaf: "isLeaf (last ?ns)"
      have nen: "?ns \<noteq> []" using len' 3 by auto
      have last: "?ns ! nat (int (length ?ns) - 1) = last ?ns"
        using nen by (simp add: last_conv_nth nat_diff_distrib')
      have only: "b = nvalue (last ?ns)" if "b \<in> set bytes" for b
      proof -
        from cov that obtain k where k: "reach ?ns (int (length ?ns) - 1) k b" by blast
        show ?thesis
        proof (cases k)
          case Nil
          with k last show ?thesis by simp
        next
          case (Cons c k')
          with k last leaf show ?thesis by simp
        qed
      qed
      then have "set bytes \<subseteq> {nvalue (last ?ns)}" by auto
      then have "card (set bytes) \<le> card {nvalue (last ?ns)}" by (intro card_mono) auto
      with 3 show False by simp
    qed
    show ?thesis
      unfolding ns tree_ok_def using 3 k256 len' wf cov nonleaf by auto
  qed
qed

subsection \<open>Code table, bit sequence and decoding\<close>

lemma init_dict_returns:
  "arena_wf ns \<Longrightarrow> r < int (length ns) \<Longrightarrow>
   \<exists>d'. init_dict ns r (d, key) = Some (d', key) \<and> dict_covers ns r key d d'"
proof (induction "nat (r + 1)" arbitrary: r d key rule: less_induct)
  case less
  show ?case
  proof (cases "r < 0")
    case True
    then have "init_dict ns r (d, key) = Some (d, key)"
      by (subst init_dict.simps) simp
    moreover have "\<not> reach ns r k v" for k v
      using True reach_in_range [of ns r k v] by auto
    ultimately show ?thesis by (simp add: dict_covers_def)
  next
    case False
    then have r0: "0 \<le> r" by simp
    with less.prems have lt: "nat r < length ns" by simp
    let ?elm = "ns ! nat r"
    show ?thesis
    proof (cases "isLeaf ?elm")
      case True
      then have "init_dict ns r (d, key) = Some (d(nvalue ?elm := key), key)"
        using r0 less.prems(2) by (subst init_dict.simps) (simp add: Let_def)
      moreover have "reach ns r k v \<longleftrightarrow> k = [] \<and> v = nvalue ?elm" for k v
        using True r0 less.prems(2) by (cases k) auto
      ultimately show ?thesis by (simp add: dict_covers_def)
    next
      case False
      with less.prems(1) lt have ch: "left ?elm < r" "right ?elm < r"
        using r0 by (auto simp: arena_wf_def dest!: spec [of _ "nat r"])
      then have chl: "left ?elm < int (length ns)" "right ?elm < int (length ns)"
        using less.prems(2) by auto
      have ml: "nat (left ?elm + 1) < nat (r + 1)" and mr: "nat (right ?elm + 1) < nat (r + 1)"
        using ch r0 by auto
      obtain d1 where d1: "init_dict ns (left ?elm) (d, key @ [False]) = Some (d1, key @ [False])"
        and c1: "dict_covers ns (left ?elm) (key @ [False]) d d1"
        using less.hyps [OF ml less.prems(1) chl(1)] by blast
      obtain d2 where d2: "init_dict ns (right ?elm) (d1, key @ [True]) = Some (d2, key @ [True])"
        and c2: "dict_covers ns (right ?elm) (key @ [True]) d1 d2"
        using less.hyps [OF mr less.prems(1) chl(2)] by blast
      have run: "init_dict ns r (d, key) = Some (d2, key)"
        using r0 less.prems(2) False d1 d2
        by (subst init_dict.simps) (simp add: Let_def)
      have step: "reach ns r k v \<longleftrightarrow>
          (\<exists>c k'. k = c # k' \<and> reach ns (if c then right ?elm else left ?elm) k' v)" for k v
        using False r0 less.prems(2) by (cases k) auto
      have "dict_covers ns r key d d2"
        unfolding dict_covers_def
      proof
        fix v
        show "(\<exists>k. reach ns r k v \<and> d2 v = key @ k) \<or> ((\<forall>k. \<not> reach ns r k v) \<and> d2 v = d v)"
        proof (cases "\<exists>k. reach ns (right ?elm) k v")
          case True
          with c2 obtain k where "reach ns (right ?elm) k v" "d2 v = (key @ [True]) @ k"
            by (auto simp: dict_covers_def)
          then have "reach ns r (True # k) v \<and> d2 v = key @ True # k"
            using False r0 less.prems(2) by simp
          then show ?thesis by blast
        next
          case nor: False
          with c2 have eq2: "d2 v = d1 v" by (auto simp: dict_covers_def)
          show ?thesis
          proof (cases "\<exists>k. reach ns (left ?elm) k v")
            case True
            with c1 obtain k where "reach ns (left ?elm) k v" "d1 v = (key @ [False]) @ k"
              by (auto simp: dict_covers_def)
            then have "reach ns r (False # k) v \<and> d2 v = key @ False # k"
              using False r0 less.prems(2) by (simp add: eq2)
            then show ?thesis by blast
          next
            case nol: False
            with c1 have "d1 v = d v" by (auto simp: dict_covers_def)
            moreover have "\<not> reach ns r k v" for k
              using nor nol by (auto simp: step)
            ultimately show ?thesis by (simp add: eq2)
          qed
        qed
      qed
      with run show ?thesis by blast
    qed
  qed
qed

lemma fill_key_writes:
  "bit_iter + length key \<le> length bd \<Longrightarrow>
   fill_key key (bd, bit_iter)
     = Some (take bit_iter bd @ key @ drop (bit_iter + length key) bd, bit_iter + length key)"
proof (induction key arbitrary: bd bit_iter)
  case Nil
  then show ?case by simp
next
  case (Cons b key)
  then have lt: "bit_iter < length bd" by simp
  have "Suc bit_iter + length key \<le> length (bd[bit_iter := b])" using Cons.prems by simp
  from Cons.IH [OF this] lt show ?case
    by (simp add: take_Suc_conv_app_nth upd_conv_take_nth_drop ac_simps)
qed

lemma fill_writes:
  "bit_iter + length (concat (map dict input_data)) \<le> length bd \<Longrightarrow>
   fill dict input_data (bd, bit_iter)
     = Some (take bit_iter bd @ concat (map dict input_data)
               @ drop (bit_iter + length (concat (map dict input_data))) bd,
             bit_iter + length (concat (map dict input_data)))"
proof (induction input_data arbitrary: bd bit_iter)
  case Nil
  then show ?case by simp
next
  case (Cons ch rest)
  let ?bd = "take bit_iter bd @ dict ch @ drop (bit_iter + length (dict ch)) bd"
  have k: "bit_iter + length (dict ch) \<le> length bd" using Cons.prems by simp
  have len: "length ?bd = length bd" using k by simp
  have "(bit_iter + length (dict ch)) + length (concat (map dict rest)) \<le> length ?bd"
    using Cons.prems by (simp only: len) simp
  from Cons.IH [OF this] show ?case
    using k by (simp add: fill_key_writes ac_simps)
qed

lemma reduce_seq_sum: "reduce_seq dict input_data = length (concat (map dict input_data))"
proof -
  have "foldl (\<lambda>a b. BinOp dict (Inl a) (Inr b)) acc xs = acc + length (concat (map dict xs))"
    for acc xs
    by (induction xs arbitrary: acc) auto
  then show ?thesis by (simp add: reduce_seq_def)
qed

lemma length_resize: "length (resize n bd) = n"
  by (simp add: resize_def)

lemma fill_all:
  "length bd = reduce_seq dict input_data \<Longrightarrow>
   fill dict input_data (bd, 0) = Some (concat (map dict input_data), reduce_seq dict input_data)"
  using fill_writes [of 0 dict input_data bd]
  by (simp add: reduce_seq_sum)

lemma decode_loop_key:
  "reach ns r key v \<Longrightarrow> \<not> isLeaf (ns ! nat r) \<Longrightarrow>
   decode_loop ns (ns ! nat r) (key @ rest) str = decode_loop ns (last ns) rest (str @ [v])"
proof (induction key arbitrary: r)
  case Nil
  then show ?case by simp
next
  case (Cons b key)
  let ?c = "if b then right (ns ! nat r) else left (ns ! nat r)"
  from Cons.prems have rc: "reach ns ?c key v" by simp
  then have rng: "0 \<le> ?c" "?c < int (length ns)" using reach_in_range by blast+
  show ?case
  proof (cases "isLeaf (ns ! nat ?c)")
    case True
    with rc have "key = []" "nvalue (ns ! nat ?c) = v" by (cases key; simp)+
    then show ?thesis using True rng by (simp add: Let_def)
  next
    case False
    from Cons.IH [OF rc False] show ?thesis using False rng by (simp add: Let_def)
  qed
qed

lemma decode_loop_keys:
  assumes nonleaf: "\<not> isLeaf (last ns)" and ne: "ns \<noteq> []"
    and keys: "\<forall>b \<in> set input_data. reach ns (int (length ns) - 1) (dict b) b"
  shows "decode_loop ns (last ns) (concat (map dict input_data) @ rest) str
         = decode_loop ns (last ns) rest (str @ input_data)"
  using keys
proof (induction input_data arbitrary: str)
  case Nil
  then show ?case by simp
next
  case (Cons b bs)
  have last: "ns ! nat (int (length ns) - 1) = last ns"
    using ne by (simp add: last_conv_nth nat_diff_distrib')
  have "reach ns (int (length ns) - 1) (dict b) b" using Cons.prems by simp
  from decode_loop_key [OF this, of "concat (map dict bs) @ rest" str] nonleaf
  have "decode_loop ns (last ns) (dict b @ concat (map dict bs) @ rest) str
      = decode_loop ns (last ns) (concat (map dict bs) @ rest) (str @ [b])"
    by (simp add: last)
  then show ?case using Cons.IH [of "str @ [b]"] Cons.prems by simp
qed

subsection \<open>What encode returns\<close>

lemma root_index_ok:
  "tree_ok bytes (nodes e) \<Longrightarrow> root_index e = int (length (nodes e)) - 1"
proof -
  assume "tree_ok bytes (nodes e)"
  then have "nodes e \<noteq> []" "length (nodes e) \<le> 511" by (auto simp: tree_ok_def)
  then have "0 \<le> int (length (nodes e)) - 1" "int (length (nodes e)) - 1 < 32768"
    by (cases "nodes e"; simp)+
  then show ?thesis by (simp add: root_index_def to_int16_id)
qed

lemma encode_returns:
  "\<exists>e dict. encode tie bytes = Some e \<and> nodes e = nodes (init_tree tie bytes Encoded_default) \<and>
     encode_post bytes e dict"
proof -
  let ?t = "init_tree tie bytes Encoded_default"
  have ok: "tree_ok bytes (nodes ?t)" by (rule init_tree_ok)
  then have wf: "arena_wf (nodes ?t)" by (simp add: tree_ok_def)
  have ri: "root_index ?t = int (length (nodes ?t)) - 1" by (rule root_index_ok [OF ok])
  then have "root_index ?t < int (length (nodes ?t))" by simp
  from init_dict_returns [OF wf this, of "\<lambda>_. []" "[]"]
  obtain d where d: "init_dict (nodes ?t) (root_index ?t) (\<lambda>_. [], []) = Some (d, [])"
    and cov: "dict_covers (nodes ?t) (root_index ?t) [] (\<lambda>_. []) d" by blast
  have ct: "code_table ?t = Some d" by (simp add: code_table_def init_dict_top_def d)
  let ?e = "?t\<lparr>binary_data := concat (map d bytes)\<rparr>"
  have enc: "encode tie bytes = Some ?e"
    by (simp add: encode_def init_binary_data_def ct fill_all length_resize Let_def)
  have keys: "\<forall>b \<in> set bytes. reach (nodes ?t) (root_index ?t) (d b) b"
  proof
    fix b assume "b \<in> set bytes"
    with ok obtain k where "reach (nodes ?t) (root_index ?t) k b"
      by (auto simp: tree_ok_def ri)
    with cov show "reach (nodes ?t) (root_index ?t) (d b) b"
      by (auto simp: dict_covers_def)
  qed
  have "code_table ?e = Some d" using ct by (simp add: code_table_def root_index_def)
  then have "encode_post bytes ?e d"
    using ok keys by (simp add: encode_post_def root_index_def)
  with enc show ?thesis by (intro exI [of _ ?e] exI [of _ d]) simp
qed

lemma decode_encoded:
  assumes "encode_post bytes e dict"
  shows "decode e = Inr bytes"
proof -
  from assms have ok: "tree_ok bytes (nodes e)"
    and bits: "binary_data e = concat (map dict bytes)"
    and keys: "\<forall>b \<in> set bytes. reach (nodes e) (root_index e) (dict b) b"
    by (auto simp: encode_post_def)
  from ok have ne: "nodes e \<noteq> []" by (simp add: tree_ok_def)
  then have rt: "root e = Inr (last (nodes e))" by (simp add: root_def)
  show ?thesis
  proof (cases "bytes = []")
    case True
    then show ?thesis by (simp add: decode_def rt bits)
  next
    case False
    with ok have nonleaf: "\<not> isLeaf (last (nodes e))" by (simp add: tree_ok_def)
    have keys': "\<forall>b \<in> set bytes. reach (nodes e) (int (length (nodes e)) - 1) (dict b) b"
      using keys root_index_ok [OF ok] by simp
    from decode_loop_keys [OF nonleaf ne keys', of "[]" "[]"]
    show ?thesis by (simp add: decode_def rt bits)
  qed
qed

lemma arena_wf_all:
  "arena_wf ns \<Longrightarrow>
   list_all (\<lambda>n. - 1 \<le> left n \<and> left n < int (length ns) \<and>
                  - 1 \<le> right n \<and> right n < int (length ns)) ns"
  unfolding list_all_length arena_wf_def by force

lemma reach_prefix:
  "reach ns r k v \<Longrightarrow> reach ns r (k @ zs) w \<Longrightarrow> zs = [] \<and> v = w"
proof (induction k arbitrary: r)
  case Nil
  then show ?case by (cases zs) auto
next
  case (Cons b k)
  then show ?case by auto
qed

subsection \<open>The reduction of step 2\<close>

lemma BinOp_weight: "BinOp dict x y = weight dict x + weight dict y"
  by (cases x; cases y) simp_all

lemma reduce_with_weight:
  "weight dict (reduce_with dict t) = sum_list (map (\<lambda>b. length (dict b)) (operands t))"
  by (induction t) (simp_all add: BinOp_weight)

lemma reduce_with_Inl:
  "inits t = 1 \<Longrightarrow> reduce_with dict t = Inl (sum_list (map (\<lambda>b. length (dict b)) (operands t)))"
proof (cases t)
  case Init
  then show ?thesis by simp
next
  case (Elem b)
  assume "inits t = 1"
  with Elem show ?thesis by simp
next
  case (Op l r)
  have "reduce_with dict t = Inl (weight dict (reduce_with dict t))"
    by (simp add: Op)
  then show ?thesis by (simp only: reduce_with_weight)
qed

lemma sum_list_mset_cong:
  "mset xs = mset ys \<Longrightarrow> sum_list (map f xs) = sum_list (map (f :: 'a \<Rightarrow> nat) ys)"
proof -
  assume "mset xs = mset ys"
  then have "mset (map f xs) = mset (map f ys)" by simp
  then have "sum_mset (mset (map f xs)) = sum_mset (mset (map f ys))" by (rule arg_cong)
  then show ?thesis by (simp only: sum_mset_sum_list)
qed

subsection \<open>One distinct byte value\<close>

lemma reach_single:
  "reach [\<lparr>left = - 1, right = - 1, nvalue = V\<rparr>, \<lparr>left = - 1, right = 0, nvalue = 0\<rparr>] 1 k v
   \<Longrightarrow> k = [True] \<and> v = V"
proof -
  let ?ns = "[\<lparr>left = - 1, right = - 1, nvalue = V\<rparr>, \<lparr>left = - 1, right = 0, nvalue = 0\<rparr>]"
  assume r: "reach ?ns 1 k v"
  then obtain b k' where k: "k = b # k'" by (cases k) (auto simp: isLeaf_def)
  with r have b: "b" by (cases b) (auto dest: reach_in_range)
  with r k have "reach ?ns 0 k' v" by simp
  then have "k' = [] \<and> v = V" by (cases k') (auto simp: isLeaf_def)
  with k b show ?thesis by simp
qed

lemma Encoded_eq: "(e :: Encoded) = \<lparr>binary_data = binary_data e, nodes = nodes e\<rparr>"
  by simp

subsection \<open>Truncated bit sequences\<close>

lemma decode_loop_codeword:
  "codeword ns nd k v \<Longrightarrow>
   decode_loop ns nd (k @ rest) str = decode_loop ns (last ns) rest (str @ [v])"
proof (induction k arbitrary: nd)
  case Nil
  then show ?case by simp
next
  case (Cons b k)
  then show ?case by (auto simp: Let_def split: if_splits)
qed

lemma decode_loop_codewords:
  "list_all2 (codeword ns (last ns)) ks vs \<Longrightarrow>
   decode_loop ns (last ns) (concat ks @ rest) str = decode_loop ns (last ns) rest (str @ vs)"
proof (induction ks vs arbitrary: str rule: list_all2_induct)
  case Nil
  then show ?case by simp
next
  case (Cons k ks v vs)
  from decode_loop_codeword [OF Cons.hyps(1), of "concat ks @ rest" str] Cons.IH [of "str @ [v]"]
  show ?case by simp
qed

lemma decode_loop_midway: "midway ns nd p \<Longrightarrow> decode_loop ns nd p str = Inr str"
  by (induction p arbitrary: nd) (auto simp: Let_def)

subsection \<open>The merge loop step by step\<close>

lemma sorted_present: "sorted (present bytes)"
  unfolding present_def by (rule sorted_wrt_filter) simp

lemma present_sort: "present bytes = sort (remdups (map unat bytes))"
proof (rule sorted_distinct_set_unique)
  show "sorted (present bytes)" by (rule sorted_present)
  show "distinct (present bytes)" by (rule distinct_present)
  show "sorted (sort (remdups (map unat bytes)))" by simp
  show "distinct (sort (remdups (map unat bytes)))" by simp
  show "set (present bytes) = set (sort (remdups (map unat bytes)))"
    by (simp add: set_present)
qed

lemma leaves_abb:
  "make_leaf_nodes (count_bytes [97, 98, 98])
   = [\<lparr>node = \<lparr>left = - 1, right = - 1, nvalue = 97\<rparr>, count = 1\<rparr>,
      \<lparr>node = \<lparr>left = - 1, right = - 1, nvalue = 98\<rparr>, count = 2\<rparr>]"
proof -
  have p: "present [97, 98, 98] = [97, 98]" by (simp add: present_sort)
  have "count_bytes [97, 98, 98] ! unat (97 :: uint8) = 1"
       "count_bytes [97, 98, 98] ! unat (98 :: uint8) = 2"
    by (simp_all only: count_bytes_nth) simp_all
  then have "count_bytes [97, 98, 98] ! 97 = 1" "count_bytes [97, 98, 98] ! 98 = 2" by simp_all
  then show ?thesis by (simp add: leaves_eq p leaf_of_def)
qed

lemma merge_loop_step:
  "1 < length queue \<Longrightarrow>
   merge_loop tie nws queue =
     merge_loop tie
       (nws @ [\<lparr>node = \<lparr>left = pq_top tie nws queue,
                         right = pq_top tie nws (pq_pop tie nws queue), nvalue = 0\<rparr>,
                count = count (nws ! nat (pq_top tie nws queue))
                      + count (nws ! nat (pq_top tie nws (pq_pop tie nws queue)))\<rparr>])
       (pq_pop tie nws (pq_pop tie nws queue) @ [to_int16 (int (length nws))])"
  by (subst merge_loop.simps) (simp add: Let_def pq_push_def)

lemma merge_loop_stop: "length queue \<le> 1 \<Longrightarrow> merge_loop tie nws queue = (nws, queue)"
  by (subst merge_loop.simps) simp

lemma merge_abb:
  "merge_loop tie
     [\<lparr>node = \<lparr>left = - 1, right = - 1, nvalue = 97\<rparr>, count = Suc 0\<rparr>,
      \<lparr>node = \<lparr>left = - 1, right = - 1, nvalue = 98\<rparr>, count = 2\<rparr>] [0, 1]
   = ([\<lparr>node = \<lparr>left = - 1, right = - 1, nvalue = 97\<rparr>, count = Suc 0\<rparr>,
       \<lparr>node = \<lparr>left = - 1, right = - 1, nvalue = 98\<rparr>, count = 2\<rparr>,
       \<lparr>node = \<lparr>left = 0, right = 1, nvalue = 0\<rparr>, count = 3\<rparr>], [2])"
proof -
  let ?nws = "[\<lparr>node = \<lparr>left = - 1, right = - 1, nvalue = 97 :: uint8\<rparr>, count = Suc 0\<rparr>,
      \<lparr>node = \<lparr>left = - 1, right = - 1, nvalue = 98\<rparr>, count = 2\<rparr>]"
  have t1: "pq_top tie ?nws [0, 1] = 0"
    by (simp add: pq_top_def pq_candidates_def cmp_def)
  then have p1: "pq_pop tie ?nws [0, 1] = [1]" by (simp add: pq_pop_def)
  have t2: "pq_top tie ?nws [1] = 1"
    by (simp add: pq_top_def pq_candidates_def cmp_def)
  then have p2: "pq_pop tie ?nws [1] = []" by (simp add: pq_pop_def)
  show ?thesis
    apply (subst merge_loop_step)
     apply simp
    apply (simp only: t1 p1 t2 p2)
    apply (simp add: to_int16_def merge_loop_stop)
    done
qed

lemma reach_abb:
  "reach [\<lparr>left = - 1, right = - 1, nvalue = 97\<rparr>, \<lparr>left = - 1, right = - 1, nvalue = 98\<rparr>,
          \<lparr>left = 0, right = 1, nvalue = 0\<rparr>] 2 k v
   \<Longrightarrow> (k = [False] \<and> v = 97) \<or> (k = [True] \<and> v = 98)"
proof -
  let ?ns = "[\<lparr>left = - 1, right = - 1, nvalue = 97 :: uint8\<rparr>, \<lparr>left = - 1, right = - 1, nvalue = 98\<rparr>,
          \<lparr>left = 0, right = 1, nvalue = 0\<rparr>]"
  assume r: "reach ?ns 2 k v"
  then obtain b k' where k: "k = b # k'" by (cases k) (auto simp: isLeaf_def)
  show ?thesis
  proof (cases b)
    case True
    with r k have "reach ?ns 1 k' v" by simp
    then have "k' = [] \<and> v = 98" by (cases k') (auto simp: isLeaf_def)
    with k True show ?thesis by simp
  next
    case False
    with r k have "reach ?ns 0 k' v" by simp
    then have "k' = [] \<and> v = 97" by (cases k') (auto simp: isLeaf_def)
    with k False show ?thesis by simp
  qed
qed

section \<open>The claims\<close>

text \<open>
  Claim C1 (round trip).  For every byte sequence \<open>X\<close>, the empty one and those holding
  every byte value included, and for every tie rule of the queue, \<open>encode\<close> returns an
  artifact and \<open>decode\<close> of that artifact returns exactly \<open>X\<close>.
\<close>

theorem roundtrip: "\<exists>e. encode tie X = Some e \<and> decode e = Inr X"
  using encode_returns [of tie X] decode_encoded by blast

theorem roundtrip_witness:
  "\<exists>e. encode (\<lambda>_. 0) [97, 98, 98] = Some e \<and> decode e = Inr [97, 98, 98]"
  by (rule roundtrip)

text \<open>
  Claim C2 (arena sizing).  With \<open>k\<close> distinct byte values in the input, the arena that
  \<open>encode\<close> builds holds 1 node if \<open>k = 0\<close>, 2 nodes if \<open>k = 1\<close> and \<open>2k - 1\<close> nodes
  otherwise, hence at most 511.  Sixteen signed bits suffice: \<open>root_index()\<close> is the last
  index without wrapping, every index of the arena is unchanged by the cast to
  \<open>int16_t\<close> (so none of them is the sentinel -1), and every child field is the sentinel
  or an index of the arena.
\<close>

theorem arena_size:
  "\<exists>e. encode tie X = Some e \<and>
     length (nodes e) = (if card (set X) = 0 then 1 else if card (set X) = 1 then 2
                         else 2 * card (set X) - 1) \<and>
     length (nodes e) \<le> 511 \<and>
     root_index e = int (length (nodes e)) - 1 \<and>
     (\<forall>i < length (nodes e). to_int16 (int i) = int i \<and> to_int16 (int i) \<noteq> - 1) \<and>
     list_all (\<lambda>n. - 1 \<le> left n \<and> left n < int (length (nodes e)) \<and>
                    - 1 \<le> right n \<and> right n < int (length (nodes e))) (nodes e)"
proof -
  obtain e dict where enc: "encode tie X = Some e" and post: "encode_post X e dict"
    using encode_returns [of tie X] by blast
  then have ok: "tree_ok X (nodes e)" by (simp add: encode_post_def)
  then have len: "length (nodes e) \<le> 511" and wf: "arena_wf (nodes e)"
    by (auto simp: tree_ok_def)
  have "to_int16 (int i) = int i \<and> to_int16 (int i) \<noteq> - 1" if "i < length (nodes e)" for i
    using that len by (simp add: to_int16_id)
  with enc ok len root_index_ok [OF ok] arena_wf_all [OF wf] show ?thesis
    by (intro exI [of _ e]) (simp add: tree_ok_def)
qed

theorem arena_size_witness:
  "\<exists>e. encode (\<lambda>_. 0) [97, 98, 98] = Some e \<and> length (nodes e) = 3 \<and> root_index e = 2"
proof -
  have "card (set [97, 98, 98 :: uint8]) = 2" by simp
  with arena_size [of "\<lambda>_. 0" "[97, 98, 98]"] show ?thesis by auto
qed

text \<open>
  Claim C3 (prefix-freedom).  For an input with at least two distinct byte values, the
  code table derived from the finished tree gives every byte value of the input a
  codeword, which is not empty and is the path from the root to a leaf carrying that
  value, and the codeword of no byte value of the input is a prefix of the codeword of
  another one.
\<close>

theorem prefix_free:
  "2 \<le> card (set X) \<Longrightarrow>
   \<exists>e dict. encode tie X = Some e \<and> code_table e = Some dict \<and>
     (\<forall>a \<in> set X. dict a \<noteq> [] \<and> reach (nodes e) (root_index e) (dict a) a \<and>
        (\<forall>b \<in> set X. a \<noteq> b \<longrightarrow> \<not> prefix (dict a) (dict b)))"
proof -
  assume two: "2 \<le> card (set X)"
  then have ne: "X \<noteq> []" by auto
  obtain e dict where enc: "encode tie X = Some e" and post: "encode_post X e dict"
    using encode_returns [of tie X] by blast
  then have ok: "tree_ok X (nodes e)" and ct: "code_table e = Some dict"
    and keys: "\<forall>b \<in> set X. reach (nodes e) (root_index e) (dict b) b"
    by (auto simp: encode_post_def)
  from ok ne have nonleaf: "\<not> isLeaf (last (nodes e))" and nne: "nodes e \<noteq> []"
    by (auto simp: tree_ok_def)
  have last: "nodes e ! nat (root_index e) = last (nodes e)"
    using nne by (simp add: root_index_ok [OF ok] last_conv_nth nat_diff_distrib')
  have "dict a \<noteq> [] \<and> reach (nodes e) (root_index e) (dict a) a \<and>
        (\<forall>b \<in> set X. a \<noteq> b \<longrightarrow> \<not> prefix (dict a) (dict b))" if a: "a \<in> set X" for a
  proof -
    from keys a have ra: "reach (nodes e) (root_index e) (dict a) a" by simp
    have "dict a \<noteq> []"
    proof
      assume "dict a = []"
      with ra have "isLeaf (nodes e ! nat (root_index e))" by simp
      with nonleaf last show False by simp
    qed
    moreover have "\<not> prefix (dict a) (dict b)" if b: "b \<in> set X" "a \<noteq> b" for b
    proof
      assume "prefix (dict a) (dict b)"
      then obtain zs where "dict b = dict a @ zs" by (auto simp: prefix_def)
      moreover from keys b have "reach (nodes e) (root_index e) (dict b) b" by simp
      ultimately have "a = b" using reach_prefix [OF ra, of zs b] by simp
      with b show False by simp
    qed
    ultimately show ?thesis using ra by blast
  qed
  with enc ct show ?thesis by blast
qed

theorem prefix_free_witness:
  "\<exists>e dict. encode (\<lambda>_. 0) [97, 98, 98] = Some e \<and> code_table e = Some dict \<and>
     dict 97 \<noteq> [] \<and> \<not> prefix (dict 97) (dict 98) \<and> \<not> prefix (dict 98) (dict 97)"
proof -
  have "2 \<le> card (set [97, 98, 98 :: uint8])" by simp
  from prefix_free [OF this, of "\<lambda>_. 0"] show ?thesis by fastforce
qed

text \<open>
  Claim C4 (bit-length accounting).  The bit sequence that \<open>encode\<close> produces has as
  many bits as the codewords of the bytes of the input have together, in the derived
  code table.  The total that step 2 computes is that number, along the sequential
  grouping and along every other grouping and arrangement of the initial value and the
  input bytes that a parallel reduction may take; the fill pass, started on a vector of
  that size, writes exactly that many bits and returns the bit sequence.
\<close>

theorem bit_length:
  "\<exists>e dict. encode tie X = Some e \<and> code_table e = Some dict \<and>
     length (binary_data e) = sum_list (map (\<lambda>b. length (dict b)) X) \<and>
     reduce_seq dict X = length (binary_data e) \<and>
     (\<forall>t. inits t = 1 \<and> mset (operands t) = mset X
          \<longrightarrow> reduce_with dict t = Inl (length (binary_data e))) \<and>
     fill dict X (replicate (reduce_seq dict X) False, 0)
       = Some (binary_data e, length (binary_data e))"
proof -
  obtain e dict where enc: "encode tie X = Some e" and post: "encode_post X e dict"
    using encode_returns [of tie X] by blast
  then have ct: "code_table e = Some dict" and bits: "binary_data e = concat (map dict X)"
    by (auto simp: encode_post_def)
  have len: "length (binary_data e) = sum_list (map (\<lambda>b. length (dict b)) X)"
    by (simp add: bits length_concat comp_def)
  have seq: "reduce_seq dict X = length (binary_data e)"
    by (simp add: reduce_seq_sum bits)
  have par: "reduce_with dict t = Inl (length (binary_data e))"
    if "inits t = 1 \<and> mset (operands t) = mset X" for t
    using that reduce_with_Inl [of t dict] sum_list_mset_cong [of "operands t" X "\<lambda>b. length (dict b)"]
    by (simp add: len)
  have fl: "fill dict X (replicate (reduce_seq dict X) False, 0)
       = Some (binary_data e, length (binary_data e))"
    using fill_all [of "replicate (reduce_seq dict X) False" dict X]
    by (simp add: bits reduce_seq_sum)
  from enc ct len seq par fl show ?thesis by blast
qed

theorem bit_length_witness:
  "\<exists>e dict. encode (\<lambda>_. 0) [97, 98, 98] = Some e \<and> code_table e = Some dict \<and>
     length (binary_data e) = length (dict 97) + (length (dict 98) + length (dict 98)) \<and>
     reduce_with dict (Op (Op (Elem 98) (Elem 97)) (Op Init (Elem 98))) = Inl (length (binary_data e))"
proof -
  obtain e dict where e: "encode (\<lambda>_. 0) [97, 98, 98] = Some e" "code_table e = Some dict"
    "length (binary_data e) = sum_list (map (\<lambda>b. length (dict b)) [97, 98, 98])"
    and par: "\<forall>t. inits t = 1 \<and> mset (operands t) = mset [97, 98, 98]
          \<longrightarrow> reduce_with dict t = Inl (length (binary_data e))"
    using bit_length [of "\<lambda>_. 0" "[97, 98, 98]"] by blast
  have "inits (Op (Op (Elem 98) (Elem 97)) (Op Init (Elem 98))) = 1 \<and>
        mset (operands (Op (Op (Elem 98) (Elem 97)) (Op Init (Elem 98)))) = mset [97, 98, 98 :: uint8]"
    by simp
  with par have "reduce_with dict (Op (Op (Elem 98) (Elem 97)) (Op Init (Elem 98)))
      = Inl (length (binary_data e))" by blast
  with e show ?thesis by (intro exI [of _ e] exI [of _ dict]) simp
qed

text \<open>
  Claim C5 (one distinct byte value).  For \<open>n \<ge> 1\<close> occurrences of one byte value \<open>V\<close>,
  \<open>encode\<close> returns the arena of the leaf of \<open>V\<close> followed by an internal node with the
  sentinel as left child and index 0 as right child, the code table gives \<open>V\<close> the
  one-bit codeword 1, the bit sequence is \<open>n\<close> one-bits, and \<open>decode\<close> returns the \<open>n\<close>
  occurrences of \<open>V\<close>.
\<close>

theorem single_symbol:
  "1 \<le> n \<Longrightarrow>
   encode tie (replicate n V)
     = Some \<lparr>binary_data = replicate n True,
             nodes = [\<lparr>left = - 1, right = - 1, nvalue = V\<rparr>, \<lparr>left = - 1, right = 0, nvalue = 0\<rparr>]\<rparr> \<and>
   (\<exists>dict. code_table \<lparr>binary_data = replicate n True,
             nodes = [\<lparr>left = - 1, right = - 1, nvalue = V\<rparr>, \<lparr>left = - 1, right = 0, nvalue = 0\<rparr>]\<rparr>
           = Some dict \<and> dict V = [True]) \<and>
   decode \<lparr>binary_data = replicate n True,
           nodes = [\<lparr>left = - 1, right = - 1, nvalue = V\<rparr>, \<lparr>left = - 1, right = 0, nvalue = 0\<rparr>]\<rparr>
     = Inr (replicate n V)"
proof -
  assume n: "1 \<le> n"
  let ?X = "replicate n V"
  let ?ns = "[\<lparr>left = - 1, right = - 1, nvalue = V\<rparr>, \<lparr>left = - 1, right = 0, nvalue = 0\<rparr>]"
  from n have set: "set ?X = {V}" by auto
  from n have hd: "hd ?X = V" by (cases n) auto
  obtain e dict where enc: "encode tie ?X = Some e"
    and ns: "nodes e = nodes (init_tree tie ?X Encoded_default)"
    and post: "encode_post ?X e dict"
    using encode_returns [of tie ?X] by blast
  have nodes: "nodes e = ?ns" by (simp add: ns init_tree_cases set hd)
  from post have ok: "tree_ok ?X (nodes e)" and ct: "code_table e = Some dict"
    and bits: "binary_data e = concat (map dict ?X)"
    and keys: "\<forall>b \<in> set ?X. reach (nodes e) (root_index e) (dict b) b"
    by (auto simp: encode_post_def)
  have ri: "root_index e = 1" using root_index_ok [OF ok] by (simp add: nodes)
  from keys have "reach ?ns 1 (dict V) V" by (simp add: set nodes ri)
  then have dV: "dict V = [True]" by (auto dest: reach_single)
  have "concat (replicate m [True]) = replicate m True" for m
    by (induction m) simp_all
  then have bd: "binary_data e = replicate n True" by (simp add: bits dV map_replicate_const)
  have e: "e = \<lparr>binary_data = replicate n True, nodes = ?ns\<rparr>"
    using Encoded_eq [of e] by (simp only: bd nodes)
  from decode_encoded [OF post] have "decode e = Inr ?X" .
  with enc ct dV show ?thesis unfolding e by blast
qed

theorem single_symbol_witness:
  "encode (\<lambda>_. 0) [97, 97, 97]
     = Some \<lparr>binary_data = [True, True, True],
             nodes = [\<lparr>left = - 1, right = - 1, nvalue = 97\<rparr>, \<lparr>left = - 1, right = 0, nvalue = 0\<rparr>]\<rparr> \<and>
   decode \<lparr>binary_data = [True, True, True],
           nodes = [\<lparr>left = - 1, right = - 1, nvalue = 97\<rparr>, \<lparr>left = - 1, right = 0, nvalue = 0\<rparr>]\<rparr>
     = Inr [97, 97, 97]"
proof -
  have "1 \<le> (3 :: nat)" by simp
  from single_symbol [OF this, of "\<lambda>_. 0" 97] show ?thesis
    by (simp add: numeral_3_eq_3)
qed

text \<open>
  Claim C6 (the merge loop).  While the queue holds more than one index, an iteration
  takes \<open>A\<close>, of least count in the queue, then \<open>B\<close>, of least count in what is left,
  appends the internal node with left child \<open>A\<close>, right child \<open>B\<close> and the sum of their
  counts, and puts the index of the new node into the queue; with one index or none the
  loop stops.  For an input with at least two distinct byte values, started on the
  leaves, it stops with a single index in the queue, which is the last index of the
  arena and \<open>root_index()\<close>.  For the input "abb" the code table maps \<open>a\<close> to 0 and \<open>b\<close> to
  1, and the bit sequence is 0, 1, 1.
\<close>

theorem merge_construction:
  "(1 < length queue \<longrightarrow>
      (let A = pq_top tie nws queue;
           rest = pq_pop tie nws queue;
           B = pq_top tie nws rest
       in A \<in> set queue \<and> list_all (\<lambda>j. count (nws ! nat A) \<le> count (nws ! nat j)) queue \<and>
          rest = remove1 A queue \<and>
          B \<in> set rest \<and> list_all (\<lambda>j. count (nws ! nat B) \<le> count (nws ! nat j)) rest \<and>
          merge_loop tie nws queue =
            merge_loop tie
              (nws @ [\<lparr>node = \<lparr>left = A, right = B, nvalue = 0\<rparr>,
                       count = count (nws ! nat A) + count (nws ! nat B)\<rparr>])
              (remove1 B rest @ [to_int16 (int (length nws))]))) \<and>
   (length queue \<le> 1 \<longrightarrow> merge_loop tie nws queue = (nws, queue)) \<and>
   (2 \<le> card (set X) \<longrightarrow>
      (\<exists>nws'. merge_loop tie (make_leaf_nodes (count_bytes X)) (map int [0..<card (set X)])
                = (nws', [root_index (init_tree tie X Encoded_default)]) \<and>
              nodes (init_tree tie X Encoded_default) = map node nws' \<and>
              root_index (init_tree tie X Encoded_default)
                = int (length (nodes (init_tree tie X Encoded_default))) - 1)) \<and>
   encode tie [97, 98, 98]
     = Some \<lparr>binary_data = [False, True, True],
             nodes = [\<lparr>left = - 1, right = - 1, nvalue = 97\<rparr>, \<lparr>left = - 1, right = - 1, nvalue = 98\<rparr>,
                      \<lparr>left = 0, right = 1, nvalue = 0\<rparr>]\<rparr> \<and>
   (\<exists>dict. code_table \<lparr>binary_data = [False, True, True],
             nodes = [\<lparr>left = - 1, right = - 1, nvalue = 97\<rparr>, \<lparr>left = - 1, right = - 1, nvalue = 98\<rparr>,
                      \<lparr>left = 0, right = 1, nvalue = 0\<rparr>]\<rparr> = Some dict \<and>
           dict 97 = [False] \<and> dict 98 = [True])"
proof (intro conjI impI)
  assume long: "1 < length queue"
  then have qne: "queue \<noteq> []" by auto
  let ?A = "pq_top tie nws queue"
  let ?rest = "pq_pop tie nws queue"
  let ?B = "pq_top tie nws ?rest"
  have "length ?rest = length queue - 1" by (rule length_pq_pop [OF qne])
  with long have rne: "?rest \<noteq> []" by auto
  have a: "?A \<in> set queue" by (rule pq_top_in_queue [OF qne])
  have amin: "list_all (\<lambda>j. count (nws ! nat ?A) \<le> count (nws ! nat j)) queue"
    unfolding list_all_iff using pq_top_least [OF qne] by blast
  have b: "?B \<in> set ?rest" by (rule pq_top_in_queue [OF rne])
  have bmin: "list_all (\<lambda>j. count (nws ! nat ?B) \<le> count (nws ! nat j)) ?rest"
    unfolding list_all_iff using pq_top_least [OF rne] by blast
  have r: "?rest = remove1 ?A queue" by (simp add: pq_pop_def)
  have step: "merge_loop tie nws queue =
      merge_loop tie
        (nws @ [\<lparr>node = \<lparr>left = ?A, right = ?B, nvalue = 0\<rparr>,
                 count = count (nws ! nat ?A) + count (nws ! nat ?B)\<rparr>])
        (remove1 ?B ?rest @ [to_int16 (int (length nws))])"
    using merge_loop_step [OF long, of tie nws] by (simp only: pq_pop_def)
  show "let A = pq_top tie nws queue; rest = pq_pop tie nws queue; B = pq_top tie nws rest
       in A \<in> set queue \<and> list_all (\<lambda>j. count (nws ! nat A) \<le> count (nws ! nat j)) queue \<and>
          rest = remove1 A queue \<and>
          B \<in> set rest \<and> list_all (\<lambda>j. count (nws ! nat B) \<le> count (nws ! nat j)) rest \<and>
          merge_loop tie nws queue =
            merge_loop tie
              (nws @ [\<lparr>node = \<lparr>left = A, right = B, nvalue = 0\<rparr>,
                       count = count (nws ! nat A) + count (nws ! nat B)\<rparr>])
              (remove1 B rest @ [to_int16 (int (length nws))])"
    unfolding Let_def using a amin r b bmin step by blast
next
  assume "length queue \<le> 1"
  then show "merge_loop tie nws queue = (nws, queue)" by (rule merge_loop_stop)
next
  assume two: "2 \<le> card (set X)"
  let ?res = "merge_loop tie (make_leaf_nodes (count_bytes X)) (map int [0..<card (set X)])"
  let ?t = "init_tree tie X Encoded_default"
  from two have "card (set X) \<noteq> 0" "card (set X) \<noteq> 1" by auto
  then have ns: "nodes ?t = map node (fst ?res)" by (simp only: init_tree_cases if_False)
  have ri: "root_index ?t = int (length (nodes ?t)) - 1"
    by (rule root_index_ok [OF init_tree_ok])
  have "snd ?res = [int (length (fst ?res)) - 1]" by (rule merge_result(3) [OF two])
  then have "snd ?res = [root_index ?t]" by (simp add: ri ns)
  then have "?res = (fst ?res, [root_index ?t])" by (simp add: prod_eq_iff)
  with ns ri show "\<exists>nws'. ?res = (nws', [root_index ?t]) \<and> nodes ?t = map node nws' \<and>
      root_index ?t = int (length (nodes ?t)) - 1"
    by blast
next
  let ?X = "[97, 98, 98 :: uint8]"
  let ?ns = "[\<lparr>left = - 1, right = - 1, nvalue = 97 :: uint8\<rparr>, \<lparr>left = - 1, right = - 1, nvalue = 98\<rparr>,
              \<lparr>left = 0, right = 1, nvalue = 0\<rparr>]"
  obtain e dict where enc: "encode tie ?X = Some e"
    and ns: "nodes e = nodes (init_tree tie ?X Encoded_default)"
    and post: "encode_post ?X e dict"
    using encode_returns [of tie ?X] by blast
  have card: "card (set ?X) = 2" by simp
  have "[0..<2] = [0, 1]" by (simp add: upt_rec)
  then have nodes: "nodes e = ?ns"
    by (simp add: ns init_tree_cases card leaves_abb merge_abb)
  from post have ok: "tree_ok ?X (nodes e)" and ct: "code_table e = Some dict"
    and bits: "binary_data e = concat (map dict ?X)"
    and keys: "\<forall>b \<in> set ?X. reach (nodes e) (root_index e) (dict b) b"
    by (auto simp: encode_post_def)
  have ri: "root_index e = 2" using root_index_ok [OF ok] by (simp add: nodes)
  from keys have "reach ?ns 2 (dict 97) 97" "reach ?ns 2 (dict 98) 98"
    by (simp_all add: nodes ri)
  then have d: "dict 97 = [False]" "dict 98 = [True]"
    by (auto dest: reach_abb)
  have bd: "binary_data e = [False, True, True]" by (simp add: bits d)
  have e: "e = \<lparr>binary_data = [False, True, True], nodes = ?ns\<rparr>"
    using Encoded_eq [of e] by (simp only: bd nodes)
  from enc show "encode tie ?X = Some \<lparr>binary_data = [False, True, True], nodes = ?ns\<rparr>"
    by (simp only: e)
  from ct d show "\<exists>dict. code_table \<lparr>binary_data = [False, True, True], nodes = ?ns\<rparr> = Some dict \<and>
      dict 97 = [False] \<and> dict 98 = [True]"
    unfolding e by blast
qed

theorem merge_construction_witness:
  "merge_loop (\<lambda>_. 1)
     [\<lparr>node = \<lparr>left = - 1, right = - 1, nvalue = 97\<rparr>, count = 1\<rparr>,
      \<lparr>node = \<lparr>left = - 1, right = - 1, nvalue = 98\<rparr>, count = 1\<rparr>,
      \<lparr>node = \<lparr>left = - 1, right = - 1, nvalue = 99\<rparr>, count = 2\<rparr>] [0, 1, 2]
   = merge_loop (\<lambda>_. 1)
       [\<lparr>node = \<lparr>left = - 1, right = - 1, nvalue = 97\<rparr>, count = 1\<rparr>,
        \<lparr>node = \<lparr>left = - 1, right = - 1, nvalue = 98\<rparr>, count = 1\<rparr>,
        \<lparr>node = \<lparr>left = - 1, right = - 1, nvalue = 99\<rparr>, count = 2\<rparr>,
        \<lparr>node = \<lparr>left = 1, right = 0, nvalue = 0\<rparr>, count = 2\<rparr>] [2, 3] \<and>
   encode (\<lambda>_. 1) [97, 98, 98]
     = Some \<lparr>binary_data = [False, True, True],
             nodes = [\<lparr>left = - 1, right = - 1, nvalue = 97\<rparr>, \<lparr>left = - 1, right = - 1, nvalue = 98\<rparr>,
                      \<lparr>left = 0, right = 1, nvalue = 0\<rparr>]\<rparr>"
proof -
  let ?tie = "\<lambda>_ :: int list. 1 :: nat"
  let ?nws = "[\<lparr>node = \<lparr>left = - 1, right = - 1, nvalue = 97 :: uint8\<rparr>, count = 1\<rparr>,
      \<lparr>node = \<lparr>left = - 1, right = - 1, nvalue = 98\<rparr>, count = 1\<rparr>,
      \<lparr>node = \<lparr>left = - 1, right = - 1, nvalue = 99\<rparr>, count = 2\<rparr>]"
  have t1: "pq_top ?tie ?nws [0, 1, 2] = 1"
    by (simp add: pq_top_def pq_candidates_def cmp_def)
  have p1: "pq_pop ?tie ?nws [0, 1, 2] = [0, 2]"
    unfolding pq_pop_def t1 by simp
  have t2: "pq_top ?tie ?nws [0, 2] = 0"
    by (simp add: pq_top_def pq_candidates_def cmp_def)
  have long: "1 < length [0, 1, 2 :: int]" by simp
  note all = merge_construction [of "[0, 1, 2]" ?tie ?nws "[]"]
  from all [THEN conjunct1, THEN mp, OF long]
  have "merge_loop ?tie ?nws [0, 1, 2] =
      merge_loop ?tie
        (?nws @ [\<lparr>node = \<lparr>left = 1, right = 0, nvalue = 0\<rparr>,
                  count = count (?nws ! nat 1) + count (?nws ! nat 0)\<rparr>])
        (remove1 0 [0, 2] @ [to_int16 (int (length ?nws))])"
    by (simp only: Let_def t1 p1 t2)
  then have "merge_loop ?tie ?nws [0, 1, 2] =
      merge_loop ?tie (?nws @ [\<lparr>node = \<lparr>left = 1, right = 0, nvalue = 0\<rparr>, count = 2\<rparr>]) [2, 3]"
    by (simp add: to_int16_def numeral_2_eq_2)
  with all show ?thesis by simp
qed

text \<open>
  Claim C7 (silent truncation).  Take any artifact whose arena is not empty and whose
  bit sequence is a sequence of complete codewords, of the symbols \<open>vs\<close>, followed by
  bits \<open>p\<close>, at least one, that walk from the root through nodes of the arena without
  reaching a leaf: the bits run out in the middle of a codeword.  Then \<open>decode\<close> raises
  no error and returns exactly \<open>vs\<close>; nothing is emitted for \<open>p\<close>.
\<close>

theorem truncated_decode:
  "nodes e \<noteq> [] \<Longrightarrow>
   list_all2 (codeword (nodes e) (last (nodes e))) ks vs \<Longrightarrow>
   p \<noteq> [] \<Longrightarrow> midway (nodes e) (last (nodes e)) p \<Longrightarrow>
   binary_data e = concat ks @ p \<Longrightarrow>
   decode e = Inr vs"
proof -
  assume ne: "nodes e \<noteq> []"
    and ks: "list_all2 (codeword (nodes e) (last (nodes e))) ks vs"
    and mid: "midway (nodes e) (last (nodes e)) p"
    and bits: "binary_data e = concat ks @ p"
  have "decode e = decode_loop (nodes e) (last (nodes e)) (concat ks @ p) []"
    using ne by (simp add: decode_def root_def bits)
  also have "\<dots> = decode_loop (nodes e) (last (nodes e)) p vs"
    using decode_loop_codewords [OF ks, of p "[]"] by simp
  also have "\<dots> = Inr vs" by (rule decode_loop_midway [OF mid])
  finally show ?thesis .
qed

theorem truncated_decode_witness:
  "decode \<lparr>binary_data = [False, True, False, True],
           nodes = [\<lparr>left = - 1, right = - 1, nvalue = 97\<rparr>, \<lparr>left = - 1, right = - 1, nvalue = 98\<rparr>,
                    \<lparr>left = - 1, right = - 1, nvalue = 99\<rparr>, \<lparr>left = 0, right = 1, nvalue = 0\<rparr>,
                    \<lparr>left = 2, right = 3, nvalue = 0\<rparr>]\<rparr>
   = Inr [99, 97]"
  by (rule truncated_decode [where ks = "[[False], [True, False]]" and p = "[True]"])
     (simp_all add: isLeaf_def)

text \<open>
  Claim C8 (totality).  \<open>encode\<close> returns an artifact for every byte sequence, the empty
  one included: the assertion of \<open>init_dict\<close> holds, its recursion returns and no write
  of the fill pass is out of bounds.  \<open>decode\<close> of that artifact returns a string: it
  reads no arena index out of bounds, the sentinel -1 included, and the arena is not
  empty.
\<close>

theorem encode_decode_total:
  "\<exists>e s. encode tie X = Some e \<and> decode e = Inr s \<and>
     decode e \<noteq> Inl BackOfEmptyArena \<and> decode e \<noteq> Inl (IndexOutOfBounds i)"
proof -
  obtain e dict where "encode tie X = Some e" and "encode_post X e dict"
    using encode_returns [of tie X] by blast
  then show ?thesis using decode_encoded [of X e dict] by auto
qed

theorem encode_decode_total_witness:
  "\<exists>e s. encode (\<lambda>_. 0) [] = Some e \<and> decode e = Inr s \<and>
     decode e \<noteq> Inl (IndexOutOfBounds (- 1))"
  using encode_decode_total [of "\<lambda>_. 0" "[]" "- 1"] by blast

text \<open>
  Claim C9 (input adapters).  On the same underlying bytes, the overloads of \<open>encode\<close>
  taking a pointer and a size, a span of \<open>std::byte\<close> and a \<open>string_view\<close> return the
  artifact that the overload taking a span of \<open>uint8_t\<close> returns on the bytes viewed:
  the same arena and the same bit sequence.
\<close>

theorem adapters_agree:
  "encode_ptr tie mem p n = encode tie (span_bytes mem p n) \<and>
   encode_byte_span tie mem (p, n) = encode tie (span_bytes mem p n) \<and>
   encode_string_view tie mem (p, n) = encode tie (span_bytes mem p n)"
  by (simp add: encode_ptr_def encode_byte_span_def encode_string_view_def)

theorem adapters_agree_witness:
  "encode_string_view (\<lambda>_. 0) (\<lambda>a. if a = 0 then 97 else 98) (0, 3) = encode (\<lambda>_. 0) [97, 98, 98] \<and>
   encode_byte_span (\<lambda>_. 0) (\<lambda>a. if a = 0 then 97 else 98) (0, 3) = encode (\<lambda>_. 0) [97, 98, 98] \<and>
   encode_ptr (\<lambda>_. 0) (\<lambda>a. if a = 0 then 97 else 98) 0 3 = encode (\<lambda>_. 0) [97, 98, 98]"
proof -
  have "span_bytes (\<lambda>a. if a = 0 then 97 else 98) 0 3 = [97, 98, 98]"
    by (simp add: span_bytes_def upt_rec)
  with adapters_agree [of "\<lambda>_. 0" "\<lambda>a. if a = 0 then 97 else 98" 0 3] show ?thesis by simp
qed

text \<open>
  Claim C10 (the arena is never empty after encode).  Every artifact that \<open>encode\<close>
  returns has an arena of at least one node, so that \<open>root()\<close> exists.  The
  default-constructed artifact has an empty arena: \<open>root()\<close> reads the last element of
  an empty vector, and so does \<open>decode()\<close> on it.
\<close>

theorem arena_nonempty:
  "(\<exists>e nd. encode tie X = Some e \<and> nodes e \<noteq> [] \<and> 1 \<le> length (nodes e) \<and> root e = Inr nd) \<and>
   nodes Encoded_default = [] \<and>
   root Encoded_default = Inl BackOfEmptyArena \<and>
   decode Encoded_default = Inl BackOfEmptyArena"
proof -
  obtain e dict where enc: "encode tie X = Some e" and "encode_post X e dict"
    using encode_returns [of tie X] by blast
  then have "nodes e \<noteq> []" by (simp add: encode_post_def tree_ok_def)
  then have "nodes e \<noteq> [] \<and> 1 \<le> length (nodes e) \<and> root e = Inr (last (nodes e))"
    by (cases "nodes e") (simp_all add: root_def)
  with enc have "\<exists>e nd. encode tie X = Some e \<and> nodes e \<noteq> [] \<and> 1 \<le> length (nodes e) \<and> root e = Inr nd"
    by blast
  then show ?thesis by (simp add: Encoded_default_def root_def decode_def)
qed

theorem arena_nonempty_witness:
  "(\<exists>e nd. encode (\<lambda>_. 0) [] = Some e \<and> nodes e \<noteq> [] \<and> root e = Inr nd) \<and>
   decode Encoded_default = Inl BackOfEmptyArena"
  using arena_nonempty [of "\<lambda>_. 0" "[]"] by blast

end
